theory Spec2Isabelle
  imports Main "HOL-Library.Multiset" "HOL-Library.Sublist"
begin

section \<open>Syntax trees of the \<open>ast\<close> module\<close>

text \<open>
  Both services of \<open>A3sist.Core/Agents/Language/Python/Services\<close> work on the trees of
  Python's \<open>ast\<close> module. A node object has a class (\<open>kind\<close>), the fields named by the
  class's \<open>_fields\<close>, in that order, and the location attributes named by \<open>_attributes\<close>.
  The classes are duck-typed, so the model keeps one constructor for all of them.

  A field holds a node, a list, or a plain value. A list item is a node or a plain value
  (\<open>None\<close> among the keys of a dict display, the names of a \<open>global\<close> statement).
\<close>

datatype prim =
    PNone
  | PBool bool
  | PInt int
  | PStr string
  | POther (truth: bool) (repr: string)
    \<comment> \<open>any other constant (bytes, float, complex, Ellipsis): its truth value and its repr\<close>

text \<open>
  Statement and expression classes (and a few others) declare the four location attributes;
  \<open>Module\<close>, \<open>Load\<close>, \<open>arguments\<close>, the operators declare none (\<open>NoLocs\<close>). \<open>None\<close> for
  \<open>lineno\<close> and \<open>col_offset\<close> is an attribute the object does not have; \<open>end_lineno\<close> and
  \<open>end_col_offset\<close> default to Python's \<open>None\<close> in the class.
\<close>

datatype locs =
    NoLocs
  | Locs (lineno: "int option") (col_offset: "int option")
         (end_lineno: "int option") (end_col_offset: "int option")

datatype node = Node (kind: string) (fields: "(string \<times> field) list") (attributes: locs)
and field = Sub node | Subs "item list" | Atom prim
and item = Obj node | Lit prim

text \<open>An exception is modelled by its message, which is all that the handlers read
  (\<open>str(ex)\<close>).\<close>

type_synonym 'a result = "string + 'a"

definition attribute_error :: "string \<Rightarrow> string \<Rightarrow> string" where
  "attribute_error k name =
     [CHR 0x27] @ k @ [CHR 0x27] @ '' object has no attribute '' @ [CHR 0x27] @ name @ [CHR 0x27]"

text \<open>\<open>node.name\<close>: the value of the field, or AttributeError when the object has none.\<close>

definition getattr :: "node \<Rightarrow> string \<Rightarrow> field result" where
  "getattr n name =
     (case map_of (fields n) name of
        None \<Rightarrow> Inl (attribute_error (kind n) name)
      | Some f \<Rightarrow> Inr f)"

text \<open>Python's truth value: an empty list, \<open>None\<close>, \<open>False\<close>, zero and the empty string are
  false; a node object is true.\<close>

fun truthy :: "field \<Rightarrow> bool" where
  "truthy (Sub c) = True"
| "truthy (Subs xs) = (xs \<noteq> [])"
| "truthy (Atom PNone) = False"
| "truthy (Atom (PBool b)) = b"
| "truthy (Atom (PInt i)) = (i \<noteq> 0)"
| "truthy (Atom (PStr s)) = (s \<noteq> [])"
| "truthy (Atom (POther b r)) = b"

subsection \<open>\<open>ast.iter_child_nodes\<close> and \<open>ast.walk\<close>\<close>

text \<open>
  \<^verbatim>\<open>
  def iter_child_nodes(node):
      for name, field in iter_fields(node):
          if isinstance(field, AST):
              yield field
          elif isinstance(field, list):
              for item in field:
                  if isinstance(item, AST):
                      yield item
  \<close>
\<close>

fun item_nodes :: "item list \<Rightarrow> node list" where
  "item_nodes [] = []"
| "item_nodes (Obj c # xs) = c # item_nodes xs"
| "item_nodes (Lit v # xs) = item_nodes xs"

fun field_nodes :: "field \<Rightarrow> node list" where
  "field_nodes (Sub c) = [c]"
| "field_nodes (Subs xs) = item_nodes xs"
| "field_nodes (Atom v) = []"

definition iter_child_nodes :: "node \<Rightarrow> node list" where
  "iter_child_nodes n = concat (map (\<lambda>x. field_nodes (snd x)) (fields n))"

lemma size_item_nodes: "sum_list (map size (item_nodes xs)) \<le> size_list size xs"
  by (induction xs rule: item_nodes.induct) auto

lemma size_field_nodes: "sum_list (map size (field_nodes f)) \<le> size f"
  using size_item_nodes by (cases f) (auto simp: le_Suc_eq)

lemma size_fields_nodes:
  "sum_list (map size (concat (map (\<lambda>x. field_nodes (snd x)) fs)))
     \<le> size_list (size_prod (\<lambda>x. 0) size) fs"
proof (induction fs)
  case Nil
  show ?case by simp
next
  case (Cons x fs)
  obtain name f where x: "x = (name, f)" by (cases x)
  have "sum_list (map size (field_nodes f)) \<le> size f" by (rule size_field_nodes)
  with Cons show ?case by (simp add: x)
qed

lemma size_iter_child_nodes: "sum_list (map size (iter_child_nodes n)) < size n"
proof (cases n)
  case (Node k fs a)
  have "sum_list (map size (concat (map (\<lambda>x. field_nodes (snd x)) fs)))
          \<le> size_list (size_prod (\<lambda>x. 0) size) fs"
    by (rule size_fields_nodes)
  then show ?thesis by (simp add: Node iter_child_nodes_def)
qed

lemma size_child: "c \<in> set (iter_child_nodes n) \<Longrightarrow> size c < size n"
proof -
  assume "c \<in> set (iter_child_nodes n)"
  then have "size c \<le> sum_list (map size (iter_child_nodes n))"
    by (simp add: member_le_sum_list)
  with size_iter_child_nodes [of n] show ?thesis by simp
qed

text \<open>
  \<^verbatim>\<open>
  def walk(node):
      todo = deque([node])
      while todo:
          node = todo.popleft()
          todo.extend(iter_child_nodes(node))
          yield node
  \<close>
  The queue is the argument; the nodes yielded are the result, in the order of the yields.
\<close>

function walk_todo :: "node list \<Rightarrow> node list" where
  "walk_todo [] = []"
| "walk_todo (n # todo) = n # walk_todo (todo @ iter_child_nodes n)"
  by pat_completeness auto
termination
proof (relation "measure (\<lambda>todo. sum_list (map size todo))")
  show "wf (measure (\<lambda>todo. sum_list (map size todo)))" by simp
next
  fix n :: node and todo :: "node list"
  show "(todo @ iter_child_nodes n, n # todo) \<in> measure (\<lambda>todo. sum_list (map size todo))"
    using size_iter_child_nodes [of n] by simp
qed

definition walk :: "node \<Rightarrow> node list" where
  "walk tree = walk_todo [tree]"

section \<open>The Analyzer service\<close>

text \<open>
  \<^verbatim>\<open>
  async def analyze_code(self, code: str) -> str:
      try:
          tree = ast.parse(code)
          issues = []
          for node in ast.walk(tree):
              if isinstance(node, ast.FunctionDef) and not node.body:
                  issues.append(f"Empty function found: {node.name}")
          return "\n".join(issues) if issues else "No issues found"
      except Exception as ex:
          return f"Analysis error: {str(ex)}"
  \<close>
  The method is a coroutine with no \<open>await\<close> in it: awaited, it runs to its return as a
  plain call does. The parser is the library's: \<open>parse\<close> is a parameter, giving the tree or the message of
  the exception raised (SyntaxError, ValueError, RecursionError: all caught by the handler).
  \<open>py_str\<close> is Python's \<open>str\<close> on values that are not strings; on a string an f-string
  inserts the string itself.
\<close>

definition empty_function :: "node \<Rightarrow> bool result" where
  \<comment> \<open>\<open>isinstance(node, ast.FunctionDef) and not node.body\<close>\<close>
  "empty_function node =
     (if kind node = ''FunctionDef'' then
        (case getattr node ''body'' of
           Inl ex \<Rightarrow> Inl ex
         | Inr body \<Rightarrow> Inr (\<not> truthy body))
      else Inr False)"

fun format_value :: "(field \<Rightarrow> string) \<Rightarrow> field \<Rightarrow> string" where
  "format_value py_str (Atom (PStr s)) = s"
| "format_value py_str v = py_str v"

definition finding :: "(field \<Rightarrow> string) \<Rightarrow> field \<Rightarrow> string" where
  "finding py_str name = ''Empty function found: '' @ format_value py_str name"

fun analyze_loop :: "(field \<Rightarrow> string) \<Rightarrow> node list \<Rightarrow> string list \<Rightarrow> string list result" where
  "analyze_loop py_str [] issues = Inr issues"
| "analyze_loop py_str (node # rest) issues =
     (case empty_function node of
        Inl ex \<Rightarrow> Inl ex
      | Inr False \<Rightarrow> analyze_loop py_str rest issues
      | Inr True \<Rightarrow>
          (case getattr node ''name'' of
             Inl ex \<Rightarrow> Inl ex
           | Inr name \<Rightarrow> analyze_loop py_str rest (issues @ [finding py_str name])))"

fun join :: "string \<Rightarrow> string list \<Rightarrow> string" where
  "join sep [] = []"
| "join sep [x] = x"
| "join sep (x # y # ys) = x @ sep @ join sep (y # ys)"

definition analyze_code ::
  "(string \<Rightarrow> node result) \<Rightarrow> (field \<Rightarrow> string) \<Rightarrow> string \<Rightarrow> string" where
  "analyze_code parse py_str code =
     (case parse code of
        Inl ex \<Rightarrow> ''Analysis error: '' @ ex
      | Inr tree \<Rightarrow>
          (case analyze_loop py_str (walk tree) [] of
             Inl ex \<Rightarrow> ''Analysis error: '' @ ex
           | Inr issues \<Rightarrow>
               (if issues \<noteq> [] then join [CHR 0x0A] issues else ''No issues found'')))"

section \<open>The RefactorEngine service\<close>

subsection \<open>Library calls of the loop body\<close>

text \<open>
  \<^verbatim>\<open>
  def copy_location(new_node, old_node):
      for attr in 'lineno', 'col_offset', 'end_lineno', 'end_col_offset':
          if attr in old_node._attributes and attr in new_node._attributes:
              value = getattr(old_node, attr, None)
              if value is not None or (
                  hasattr(old_node, attr) and attr.startswith("end_")
              ):
                  setattr(new_node, attr, value)
      return new_node
  \<close>
\<close>

definition copy_location :: "node \<Rightarrow> node \<Rightarrow> node" where
  "copy_location new_node old_node =
     (case (attributes new_node, attributes old_node) of
        (Locs l c el ec, Locs l' c' el' ec') \<Rightarrow>
          Node (kind new_node) (fields new_node)
            (Locs (if l' \<noteq> None then l' else l) (if c' \<noteq> None then c' else c) el' ec')
      | _ \<Rightarrow> new_node)"

text \<open>
  The two calls below recurse over the subtree, and Python bounds the depth of its stack: a
  call that would go beyond the recursion limit raises RecursionError, with the message
  \<open>recursion_error\<close>, which the handler of \<open>refactor_code\<close> turns into its result.
  \<open>frames\<close> is the number of stack frames a call may still take: below the method itself
  it is what \<open>sys.getrecursionlimit()\<close> leaves to the calls of the loop body. The calls that
  do not recurse (the parser's, \<open>ast.walk\<close>, \<open>copy_location\<close>) are taken to have the few
  frames they need.
\<close>

definition recursion_error :: string where
  "recursion_error = ''maximum recursion depth exceeded''"

fun sequence :: "'a result list \<Rightarrow> 'a list result" where
  "sequence [] = Inr []"
| "sequence (Inl ex # rs) = Inl ex"
| "sequence (Inr x # rs) =
     (case sequence rs of Inl ex \<Rightarrow> Inl ex | Inr xs \<Rightarrow> Inr (x # xs))"

text \<open>
  \<^verbatim>\<open>
  def fix_missing_locations(node):
      def _fix(node, lineno, col_offset, end_lineno, end_col_offset):
          if 'lineno' in node._attributes:
              if not hasattr(node, 'lineno'):
                  node.lineno = lineno
              else:
                  lineno = node.lineno
          (the same for end_lineno, col_offset, end_col_offset)
          for child in iter_child_nodes(node):
              _fix(child, lineno, col_offset, end_lineno, end_col_offset)
      _fix(node, 1, 0, 1, 0)
      return node
  \<close>
  The objects are changed in place; the model returns the subtree as it is afterwards.
  \<open>inherited\<close> are the four values after the \<open>if\<close>s, \<open>filled\<close> the attributes of the node
  after them. A call of \<open>_fix\<close> takes one frame, and its \<open>for\<close> two more while the generators
  \<open>iter_child_nodes\<close> and \<open>iter_fields\<close> run; these two are free again when a child is
  handled.
\<close>

type_synonym location = "int \<times> int \<times> int \<times> int"

fun inherited :: "location \<Rightarrow> locs \<Rightarrow> location" where
  "inherited (l, c, el, ec) NoLocs = (l, c, el, ec)"
| "inherited (l, c, el, ec) (Locs l0 c0 el0 ec0) =
     (case l0 of None \<Rightarrow> l | Some v \<Rightarrow> v,
      case c0 of None \<Rightarrow> c | Some v \<Rightarrow> v,
      case el0 of None \<Rightarrow> el | Some v \<Rightarrow> v,
      case ec0 of None \<Rightarrow> ec | Some v \<Rightarrow> v)"

fun filled :: "location \<Rightarrow> locs \<Rightarrow> locs" where
  "filled (l, c, el, ec) NoLocs = NoLocs"
| "filled (l, c, el, ec) (Locs l0 c0 el0 ec0) = Locs (Some l) (Some c) (Some el) (Some ec)"

fun fix_node :: "nat \<Rightarrow> location \<Rightarrow> node \<Rightarrow> node result"
and fix_field :: "nat \<Rightarrow> location \<Rightarrow> field \<Rightarrow> field result"
and fix_item :: "nat \<Rightarrow> location \<Rightarrow> item \<Rightarrow> item result" where
  "fix_node frames inh (Node k fs a) =
     (if frames < 3 then Inl recursion_error
      else case sequence (map (\<lambda>x. map_sum id (Pair (fst x))
                                  (fix_field (frames - 1) (inherited inh a) (snd x))) fs) of
             Inl ex \<Rightarrow> Inl ex
           | Inr fs' \<Rightarrow> Inr (Node k fs' (filled (inherited inh a) a)))"
| "fix_field frames inh (Sub c) = map_sum id Sub (fix_node frames inh c)"
| "fix_field frames inh (Subs xs) = map_sum id Subs (sequence (map (fix_item frames inh) xs))"
| "fix_field frames inh (Atom v) = Inr (Atom v)"
| "fix_item frames inh (Obj c) = map_sum id Obj (fix_node frames inh c)"
| "fix_item frames inh (Lit v) = Inr (Lit v)"

definition fix_missing_locations :: "nat \<Rightarrow> node \<Rightarrow> node result" where
  \<comment> \<open>one frame for the call itself\<close>
  "fix_missing_locations frames node = fix_node (frames - 1) (1, 0, 1, 0) node"

text \<open>
  \<open>ast.NodeTransformer().visit(node)\<close> of the base class: \<open>visit\<close> dispatches on the class
  name; the base class defines \<open>visit_Constant\<close> (which reads \<open>node.value\<close> and goes on with
  \<open>generic_visit\<close>) and nothing else, so every other class gets \<open>generic_visit\<close>:
  \<^verbatim>\<open>
  def visit(self, node):
      method = 'visit_' + node.__class__.__name__
      visitor = getattr(self, method, self.generic_visit)
      return visitor(node)

  def generic_visit(self, node):
      for field, old_value in iter_fields(node):
          if isinstance(old_value, list):
              new_values = []
              for value in old_value:
                  if isinstance(value, AST):
                      value = self.visit(value)
                      if value is None:
                          continue
                      elif not isinstance(value, AST):
                          new_values.extend(value)
                          continue
                  new_values.append(value)
              old_value[:] = new_values
          elif isinstance(old_value, AST):
              new_node = self.visit(old_value)
              if new_node is None:
                  delattr(node, field)
              else:
                  setattr(node, field, new_node)
      return node
  \<close>
  Each list is overwritten in place with the values collected, each node field is set again.
  A node takes the frames of \<open>visit\<close> and \<open>generic_visit\<close>, a \<open>Constant\<close> that of
  \<open>visit_Constant\<close> between the two (\<open>own_frames\<close>), and one more while the generator
  \<open>iter_fields\<close> runs. \<open>visit_Constant\<close> reads \<open>node.value\<close> before it calls on.
\<close>

definition own_frames :: "string \<Rightarrow> nat" where
  "own_frames k = (if k = ''Constant'' then 3 else 2)"

fun visit :: "nat \<Rightarrow> node \<Rightarrow> node result"
and visit_field :: "nat \<Rightarrow> field \<Rightarrow> field result"
and visit_item :: "nat \<Rightarrow> item \<Rightarrow> item result" where
  "visit frames (Node k fs a) =
     (if k = ''Constant'' \<and> 2 \<le> frames \<and> map_of fs ''value'' = None
      then Inl (attribute_error k ''value'')
      else if frames < own_frames k + 1 then Inl recursion_error
      else case sequence (map (\<lambda>x. map_sum id (Pair (fst x))
                                  (visit_field (frames - own_frames k) (snd x))) fs) of
             Inl ex \<Rightarrow> Inl ex
           | Inr fs' \<Rightarrow> Inr (Node k fs' a))"
| "visit_field frames (Sub c) = map_sum id Sub (visit frames c)"
| "visit_field frames (Subs xs) = map_sum id Subs (sequence (map (visit_item frames) xs))"
| "visit_field frames (Atom v) = Inr (Atom v)"
| "visit_item frames (Obj c) = map_sum id Obj (visit frames c)"
| "visit_item frames (Lit v) = Inr (Lit v)"

subsection \<open>Nodes by position\<close>

text \<open>
  The loop holds references to node objects of the tree and changes objects in place. The
  model names a node object by its position: the way from the root, each step being the index
  of a field, or of a field and of an item of its list.
\<close>

datatype step = Field nat | Item nat nat

type_synonym pos = "step list"

fun get :: "node \<Rightarrow> pos \<Rightarrow> node option" where
  "get n [] = Some n"
| "get n (Field i # p) =
     (if i < length (fields n) then
        (case snd (fields n ! i) of Sub c \<Rightarrow> get c p | _ \<Rightarrow> None)
      else None)"
| "get n (Item i j # p) =
     (if i < length (fields n) then
        (case snd (fields n ! i) of
           Subs xs \<Rightarrow>
             (if j < length xs then (case xs ! j of Obj c \<Rightarrow> get c p | _ \<Rightarrow> None) else None)
         | _ \<Rightarrow> None)
      else None)"

fun put :: "node \<Rightarrow> pos \<Rightarrow> node \<Rightarrow> node" where
  "put n [] m = m"
| "put n (Field i # p) m =
     (if i < length (fields n) then
        (case snd (fields n ! i) of
           Sub c \<Rightarrow> Node (kind n) ((fields n)[i := (fst (fields n ! i), Sub (put c p m))])
                      (attributes n)
         | _ \<Rightarrow> n)
      else n)"
| "put n (Item i j # p) m =
     (if i < length (fields n) then
        (case snd (fields n ! i) of
           Subs xs \<Rightarrow>
             (if j < length xs then
                (case xs ! j of
                   Obj c \<Rightarrow> Node (kind n)
                              ((fields n)[i := (fst (fields n ! i), Subs (xs[j := Obj (put c p m)]))])
                              (attributes n)
                 | _ \<Rightarrow> n)
              else n)
         | _ \<Rightarrow> n)
      else n)"

fun item_places :: "pos \<Rightarrow> nat \<Rightarrow> nat \<Rightarrow> item list \<Rightarrow> (pos \<times> node) list" where
  "item_places p i j [] = []"
| "item_places p i j (Obj c # xs) = (p @ [Item i j], c) # item_places p i (Suc j) xs"
| "item_places p i j (Lit v # xs) = item_places p i (Suc j) xs"

fun field_places :: "pos \<Rightarrow> nat \<Rightarrow> field \<Rightarrow> (pos \<times> node) list" where
  "field_places p i (Sub c) = [(p @ [Field i], c)]"
| "field_places p i (Subs xs) = item_places p i 0 xs"
| "field_places p i (Atom v) = []"

fun fields_places :: "pos \<Rightarrow> nat \<Rightarrow> (string \<times> field) list \<Rightarrow> (pos \<times> node) list" where
  "fields_places p i [] = []"
| "fields_places p i (x # fs) = field_places p i (snd x) @ fields_places p (Suc i) fs"

definition child_places :: "pos \<Rightarrow> node \<Rightarrow> (pos \<times> node) list" where
  "child_places p n = fields_places p 0 (fields n)"

lemma item_places_nodes: "map snd (item_places p i j xs) = item_nodes xs"
  by (induction p i j xs rule: item_places.induct) auto

lemma field_places_nodes: "map snd (field_places p i f) = field_nodes f"
  by (cases f) (auto simp: item_places_nodes)

lemma fields_places_nodes:
  "map snd (fields_places p i fs) = concat (map (\<lambda>x. field_nodes (snd x)) fs)"
  by (induction fs arbitrary: i) (auto simp: field_places_nodes)

lemma child_places_nodes: "map snd (child_places p n) = iter_child_nodes n"
  by (simp add: child_places_def iter_child_nodes_def fields_places_nodes)

text \<open>\<open>ast.walk\<close> once more, each node with its position.\<close>

function walk_places_todo :: "(pos \<times> node) list \<Rightarrow> (pos \<times> node) list" where
  "walk_places_todo [] = []"
| "walk_places_todo (x # todo) = x # walk_places_todo (todo @ child_places (fst x) (snd x))"
  by pat_completeness auto
termination
proof (relation "measure (\<lambda>todo. sum_list (map size (map snd todo)))")
  show "wf (measure (\<lambda>todo. sum_list (map size (map snd todo))))" by simp
next
  fix x :: "pos \<times> node" and todo :: "(pos \<times> node) list"
  show "(todo @ child_places (fst x) (snd x), x # todo)
          \<in> measure (\<lambda>todo. sum_list (map size (map snd todo)))"
    using size_iter_child_nodes [of "snd x"]
    by (simp add: child_places_nodes [of "fst x" "snd x", symmetric])
qed

definition walk_positions :: "node \<Rightarrow> pos list" where
  "walk_positions tree = map fst (walk_places_todo [([], tree)])"

subsection \<open>\<open>refactor_code\<close>\<close>

text \<open>
  \<^verbatim>\<open>
  async def refactor_code(self, code: str) -> str:
      try:
          tree = ast.parse(code)
          for node in ast.walk(tree):
              if isinstance(node, ast.Call) and isinstance(node.func, ast.Name) and node.func.id == 'print':
                  new_node = ast.Call(
                      func=ast.Attribute(
                          value=ast.Name(id='logging', ctx=ast.Load()),
                          attr='info',
                          ctx=ast.Load()
                      ),
                      args=node.args,
                      keywords=[]
                  )
                  ast.copy_location(new_node, node)
                  ast.fix_missing_locations(new_node)
                  ast.NodeTransformer().visit(new_node)
          return ast.unparse(tree)
      except Exception as ex:
          return f"Refactoring error: {str(ex)}"
  \<close>
  \<open>parse\<close> and \<open>unparse\<close> are the library's parser and code generator, each giving its
  value or the message of the exception it raises; \<open>frames\<close> is the stack left to the calls
  of the loop body.
\<close>

definition is_print_call :: "node \<Rightarrow> bool result" where
  \<comment> \<open>\<open>isinstance(node, ast.Call) and isinstance(node.func, ast.Name) and node.func.id == 'print'\<close>\<close>
  "is_print_call node =
     (if kind node = ''Call'' then
        (case getattr node ''func'' of
           Inl ex \<Rightarrow> Inl ex
         | Inr (Sub func) \<Rightarrow>
             (if kind func = ''Name'' then
                (case getattr func ''id'' of
                   Inl ex \<Rightarrow> Inl ex
                 | Inr ident \<Rightarrow> Inr (ident = Atom (PStr ''print'')))
              else Inr False)
         | Inr _ \<Rightarrow> Inr False)
      else Inr False)"

definition new_call :: "field \<Rightarrow> node" where
  \<comment> \<open>the constructor expression; a node built by a constructor has no location yet\<close>
  "new_call args =
     Node ''Call''
       [(''func'', Sub (Node ''Attribute''
           [(''value'', Sub (Node ''Name''
               [(''id'', Atom (PStr ''logging'')), (''ctx'', Sub (Node ''Load'' [] NoLocs))]
               (Locs None None None None))),
            (''attr'', Atom (PStr ''info'')),
            (''ctx'', Sub (Node ''Load'' [] NoLocs))]
           (Locs None None None None))),
        (''args'', args),
        (''keywords'', Subs [])]
       (Locs None None None None)"

text \<open>
  \<open>args=node.args\<close> hands the list object of the matched call to the new node: the two nodes
  share it, and the argument nodes in it. What the library calls do to \<open>new_node.args\<close> in
  place they do to \<open>node.args\<close>. \<open>share_args\<close> is the matched node afterwards: its \<open>args\<close>
  are those of the new node. Nothing else of the new node is reachable from the tree.
\<close>

fun set_field :: "string \<Rightarrow> field \<Rightarrow> (string \<times> field) list \<Rightarrow> (string \<times> field) list" where
  "set_field name f [] = []"
| "set_field name f (x # fs) = (if fst x = name then (name, f) # fs else x # set_field name f fs)"

definition with_field :: "node \<Rightarrow> string \<Rightarrow> field \<Rightarrow> node" where
  "with_field n name f = Node (kind n) (set_field name f (fields n)) (attributes n)"

definition share_args :: "node \<Rightarrow> node \<Rightarrow> node" where
  "share_args node new_node =
     (case getattr new_node ''args'' of
        Inl ex \<Rightarrow> node
      | Inr args \<Rightarrow> with_field node ''args'' args)"

definition refactor_step :: "nat \<Rightarrow> node \<Rightarrow> pos \<Rightarrow> node result" where
  "refactor_step frames tree p =
     (case get tree p of
        None \<Rightarrow> Inr tree
      | Some node \<Rightarrow>
          (case is_print_call node of
             Inl ex \<Rightarrow> Inl ex
           | Inr False \<Rightarrow> Inr tree
           | Inr True \<Rightarrow>
               (case getattr node ''args'' of
                  Inl ex \<Rightarrow> Inl ex
                | Inr args \<Rightarrow>
                    (let new_node = new_call args;
                         new_node = copy_location new_node node
                     in case fix_missing_locations frames new_node of
                          Inl ex \<Rightarrow> Inl ex
                        | Inr new_node \<Rightarrow>
                            (case visit frames new_node of
                               Inl ex \<Rightarrow> Inl ex
                             | Inr new_node \<Rightarrow>
                                 Inr (put tree p (share_args node new_node)))))))"

fun refactor_loop :: "nat \<Rightarrow> pos list \<Rightarrow> node \<Rightarrow> node result" where
  "refactor_loop frames [] tree = Inr tree"
| "refactor_loop frames (p # ps) tree =
     (case refactor_step frames tree p of
        Inl ex \<Rightarrow> Inl ex
      | Inr tree' \<Rightarrow> refactor_loop frames ps tree')"

definition refactor_code ::
  "nat \<Rightarrow> (string \<Rightarrow> node result) \<Rightarrow> (node \<Rightarrow> string result) \<Rightarrow> string \<Rightarrow> string" where
  "refactor_code frames parse unparse code =
     (case parse code of
        Inl ex \<Rightarrow> ''Refactoring error: '' @ ex
      | Inr tree \<Rightarrow>
          (case refactor_loop frames (walk_positions tree) tree of
             Inl ex \<Rightarrow> ''Refactoring error: '' @ ex
           | Inr tree' \<Rightarrow>
               (case unparse tree' of
                  Inl ex \<Rightarrow> ''Refactoring error: '' @ ex
                | Inr text \<Rightarrow> text)))"

section \<open>Notions of the specification\<close>

text \<open>Document order: a node, then its children's subtrees from left to right.\<close>

function preorder :: "node \<Rightarrow> node list" where
  "preorder n = n # concat (map preorder (iter_child_nodes n))"
  by pat_completeness auto
termination
  by (relation "measure size") (auto simp: size_child)

declare preorder.simps [simp del]

text \<open>Breadth-first order: the nodes of depth 0, then those of depth 1, and so on, each
  depth from left to right. No node lies deeper than \<open>size tree\<close>.\<close>

fun nodes_at_depth :: "nat \<Rightarrow> node \<Rightarrow> node list" where
  "nodes_at_depth 0 n = [n]"
| "nodes_at_depth (Suc d) n = concat (map (nodes_at_depth d) (iter_child_nodes n))"

definition level_order :: "node \<Rightarrow> node list" where
  "level_order tree = concat (map (\<lambda>d. nodes_at_depth d tree) [0..<size tree])"

text \<open>What one turn of the analysis loop appends to \<open>issues\<close>.\<close>

definition emitted :: "(field \<Rightarrow> string) \<Rightarrow> node \<Rightarrow> string list" where
  "emitted py_str node =
     (if empty_function node = Inr True then
        (case getattr node ''name'' of Inr name \<Rightarrow> [finding py_str name] | Inl ex \<Rightarrow> [])
      else [])"


text \<open>
  Two properties of every tree the parser builds. \<open>located\<close>: a node whose class declares
  location attributes has all four. \<open>conforms\<close>: a node has the fields its class declares, as
  far as the loop of \<open>refactor_code\<close> and the calls in it read them (\<open>func\<close> and \<open>args\<close> of a
  \<open>Call\<close>, \<open>id\<close> of a \<open>Name\<close>, \<open>value\<close> of a \<open>Constant\<close>).
\<close>

fun located :: "node \<Rightarrow> bool"
and located_field :: "field \<Rightarrow> bool"
and located_item :: "item \<Rightarrow> bool" where
  "located (Node k fs a) =
     ((case a of NoLocs \<Rightarrow> True
       | Locs l c el ec \<Rightarrow> l \<noteq> None \<and> c \<noteq> None \<and> el \<noteq> None \<and> ec \<noteq> None)
      \<and> (\<forall>x \<in> set fs. located_field (snd x)))"
| "located_field (Sub c) = located c"
| "located_field (Subs xs) = (\<forall>i \<in> set xs. located_item i)"
| "located_field (Atom v) = True"
| "located_item (Obj c) = located c"
| "located_item (Lit v) = True"

fun conforms :: "node \<Rightarrow> bool"
and conforms_field :: "field \<Rightarrow> bool"
and conforms_item :: "item \<Rightarrow> bool" where
  "conforms (Node k fs a) =
     ((k = ''Call'' \<longrightarrow> map_of fs ''func'' \<noteq> None \<and> map_of fs ''args'' \<noteq> None)
      \<and> (k = ''Name'' \<longrightarrow> map_of fs ''id'' \<noteq> None)
      \<and> (k = ''Constant'' \<longrightarrow> map_of fs ''value'' \<noteq> None)
      \<and> (\<forall>x \<in> set fs. conforms_field (snd x)))"
| "conforms_field (Sub c) = conforms c"
| "conforms_field (Subs xs) = (\<forall>i \<in> set xs. conforms_item i)"
| "conforms_field (Atom v) = True"
| "conforms_item (Obj c) = conforms c"
| "conforms_item (Lit v) = True"


text \<open>Trees that differ in location attributes only are equivalent: \<open>erase\<close> removes the
  locations.\<close>

fun erase :: "node \<Rightarrow> node"
and erase_field :: "field \<Rightarrow> field"
and erase_item :: "item \<Rightarrow> item" where
  "erase (Node k fs a) = Node k (map (\<lambda>x. (fst x, erase_field (snd x))) fs) NoLocs"
| "erase_field (Sub c) = Sub (erase c)"
| "erase_field (Subs xs) = Subs (map erase_item xs)"
| "erase_field (Atom v) = Atom v"
| "erase_item (Obj c) = Obj (erase c)"
| "erase_item (Lit v) = Lit v"


text \<open>
  The frames the two recursive calls need on a subtree, by the accounting of their definitions:
  \<open>fix_frames\<close> for \<open>_fix\<close>, \<open>visit_frames\<close> for \<open>visit\<close>. \<open>loop_frames\<close> is what the
  loop body needs at a matched call with the arguments \<open>args\<close>: the frames of
  \<open>fix_missing_locations\<close> and of \<open>visit\<close> on the new node. \<open>frames_suffice\<close>: the
  frames suffice for the loop body at this node; \<open>within_limit\<close>: they do at every node of
  the tree, which is to say at every call of \<open>print\<close> in it.
\<close>

definition maximum :: "nat list \<Rightarrow> nat" where
  "maximum xs = foldr max xs 0"

fun fix_frames :: "node \<Rightarrow> nat"
and fix_frames_field :: "field \<Rightarrow> nat"
and fix_frames_item :: "item \<Rightarrow> nat" where
  "fix_frames (Node k fs a) = 1 + max 2 (maximum (map (\<lambda>x. fix_frames_field (snd x)) fs))"
| "fix_frames_field (Sub c) = fix_frames c"
| "fix_frames_field (Subs xs) = maximum (map fix_frames_item xs)"
| "fix_frames_field (Atom v) = 0"
| "fix_frames_item (Obj c) = fix_frames c"
| "fix_frames_item (Lit v) = 0"

fun visit_frames :: "node \<Rightarrow> nat"
and visit_frames_field :: "field \<Rightarrow> nat"
and visit_frames_item :: "item \<Rightarrow> nat" where
  "visit_frames (Node k fs a) =
     own_frames k + max 1 (maximum (map (\<lambda>x. visit_frames_field (snd x)) fs))"
| "visit_frames_field (Sub c) = visit_frames c"
| "visit_frames_field (Subs xs) = maximum (map visit_frames_item xs)"
| "visit_frames_field (Atom v) = 0"
| "visit_frames_item (Obj c) = visit_frames c"
| "visit_frames_item (Lit v) = 0"

definition loop_frames :: "field \<Rightarrow> nat" where
  "loop_frames args = max (1 + fix_frames (new_call args)) (visit_frames (new_call args))"

definition frames_suffice :: "nat \<Rightarrow> node \<Rightarrow> bool" where
  "frames_suffice frames n =
     (case is_print_call n of
        Inr True \<Rightarrow>
          (case getattr n ''args'' of
             Inr args \<Rightarrow> loop_frames args \<le> frames
           | Inl ex \<Rightarrow> True)
      | _ \<Rightarrow> True)"

definition within_limit :: "nat \<Rightarrow> node \<Rightarrow> bool" where
  "within_limit frames tree = list_all (frames_suffice frames) (walk tree)"

text \<open>A call whose callee is \<open>logging.info\<close>.\<close>

definition logging_info_call :: "node \<Rightarrow> bool" where
  "logging_info_call n =
     (kind n = ''Call'' \<and>
      (case map_of (fields n) ''func'' of
         Some (Sub func) \<Rightarrow>
           kind func = ''Attribute''
           \<and> map_of (fields func) ''attr'' = Some (Atom (PStr ''info''))
           \<and> (case map_of (fields func) ''value'' of
                 Some (Sub v) \<Rightarrow> kind v = ''Name''
                                \<and> map_of (fields v) ''id'' = Some (Atom (PStr ''logging''))
               | _ \<Rightarrow> False)
       | _ \<Rightarrow> False))"

section \<open>Example trees\<close>

text \<open>The trees below are what \<open>ast.parse\<close> builds for the source texts named, field by
  field (\<open>ast.dump\<close> with \<open>include_attributes=True\<close>).\<close>

definition at :: "int \<Rightarrow> int \<Rightarrow> int \<Rightarrow> int \<Rightarrow> locs" where
  "at l c el ec = Locs (Some l) (Some c) (Some el) (Some ec)"

definition load :: node where
  "load = Node ''Load'' [] NoLocs"

definition name_node :: "string \<Rightarrow> locs \<Rightarrow> node" where
  "name_node ident a = Node ''Name'' [(''id'', Atom (PStr ident)), (''ctx'', Sub load)] a"

definition call :: "node \<Rightarrow> item list \<Rightarrow> locs \<Rightarrow> node" where
  "call func args a =
     Node ''Call'' [(''func'', Sub func), (''args'', Subs args), (''keywords'', Subs [])] a"

definition expr_stmt :: "node \<Rightarrow> locs \<Rightarrow> node" where
  "expr_stmt v a = Node ''Expr'' [(''value'', Sub v)] a"

definition no_arguments :: node where
  "no_arguments =
     Node ''arguments''
       [(''posonlyargs'', Subs []), (''args'', Subs []), (''vararg'', Atom PNone),
        (''kwonlyargs'', Subs []), (''kw_defaults'', Subs []), (''kwarg'', Atom PNone),
        (''defaults'', Subs [])]
       NoLocs"

definition function_def :: "string \<Rightarrow> item list \<Rightarrow> locs \<Rightarrow> node" where
  "function_def name body a =
     Node ''FunctionDef''
       [(''name'', Atom (PStr name)), (''args'', Sub no_arguments), (''body'', Subs body),
        (''decorator_list'', Subs []), (''returns'', Atom PNone), (''type_comment'', Atom PNone)]
       a"

definition class_def :: "string \<Rightarrow> item list \<Rightarrow> locs \<Rightarrow> node" where
  "class_def name body a =
     Node ''ClassDef''
       [(''name'', Atom (PStr name)), (''bases'', Subs []), (''keywords'', Subs []),
        (''body'', Subs body), (''decorator_list'', Subs [])]
       a"

definition module :: "item list \<Rightarrow> node" where
  "module body = Node ''Module'' [(''body'', Subs body), (''type_ignores'', Subs [])] NoLocs"

lemmas tree_defs =
  at_def load_def name_node_def call_def expr_stmt_def no_arguments_def function_def_def
  class_def_def module_def

text \<open>\<^verbatim>\<open>print(x, y)\<close>\<close>

definition print_xy_source :: string where
  "print_xy_source = ''print(x, y)''"

definition print_xy_call :: node where
  "print_xy_call =
     call (name_node ''print'' (at 1 0 1 5))
       [Obj (name_node ''x'' (at 1 6 1 7)), Obj (name_node ''y'' (at 1 9 1 10))]
       (at 1 0 1 11)"

definition print_xy_tree :: node where
  "print_xy_tree = module [Obj (expr_stmt print_xy_call (at 1 0 1 11))]"

text \<open>\<^verbatim>\<open>logging.info(x, y)\<close>\<close>

definition logging_xy_source :: string where
  "logging_xy_source = ''logging.info(x, y)''"

definition logging_xy_call :: node where
  "logging_xy_call =
     call (Node ''Attribute''
             [(''value'', Sub (name_node ''logging'' (at 1 0 1 7))),
              (''attr'', Atom (PStr ''info'')),
              (''ctx'', Sub load)]
             (at 1 0 1 12))
       [Obj (name_node ''x'' (at 1 13 1 14)), Obj (name_node ''y'' (at 1 16 1 17))]
       (at 1 0 1 18)"

definition logging_xy_tree :: node where
  "logging_xy_tree = module [Obj (expr_stmt logging_xy_call (at 1 0 1 18))]"

text \<open>\<^verbatim>\<open>def f():\<close> followed by the line \<^verbatim>\<open>    pass\<close>\<close>

definition def_f_pass_source :: string where
  "def_f_pass_source = ''def f():'' @ [CHR 0x0A] @ ''    pass''"

definition def_f_pass_tree :: node where
  "def_f_pass_tree =
     module [Obj (function_def ''f'' [Obj (Node ''Pass'' [] (at 2 4 2 8))] (at 1 0 2 8))]"



text \<open>A tree no source text has, put together with the constructors of the module: the tree of
  a class \<open>C\<close> with a method \<open>a\<close>, followed by a function \<open>b\<close>, the two bodies emptied.\<close>

definition emptied_tree :: node where
  "emptied_tree =
     module
       [Obj (class_def ''C'' [Obj (function_def ''a'' [] (at 2 4 3 12))] (at 1 0 3 12)),
        Obj (function_def ''b'' [] (at 4 0 5 8))]"

text \<open>
  \<^verbatim>\<open>print(a+a+...+a)\<close> with 500 names: \<open>sum_chain k\<close> is the tree of a sum with \<open>k\<close>
  signs, which the parser nests to the left. On this tree \<open>ast.unparse\<close> raises
  RecursionError with the message \<open>unparse_recursion_message\<close>.
\<close>

fun sum_chain :: "nat \<Rightarrow> node" where
  "sum_chain 0 = name_node ''a'' (at 1 6 1 7)"
| "sum_chain (Suc k) =
     Node ''BinOp''
       [(''left'', Sub (sum_chain k)),
        (''op'', Sub (Node ''Add'' [] NoLocs)),
        (''right'', Sub (name_node ''a'' (at 1 (8 + 2 * int k) 1 (9 + 2 * int k))))]
       (at 1 6 1 (9 + 2 * int k))"

definition deep_source :: string where
  "deep_source = ''print('' @ concat (replicate 499 ''a+'') @ ''a)''"

definition deep_call :: node where
  "deep_call = call (name_node ''print'' (at 1 0 1 5)) [Obj (sum_chain 499)] (at 1 0 1 1006)"

definition deep_tree :: node where
  "deep_tree = module [Obj (expr_stmt deep_call (at 1 0 1 1006))]"

definition unparse_recursion_message :: string where
  "unparse_recursion_message = ''maximum recursion depth exceeded while calling a Python object''"

text \<open>
  \<^verbatim>\<open>x = 0xff...f\<close> with 4000 digits: the parser reads the number, and \<open>ast.unparse\<close>
  raises ValueError when it is to write it in decimal, with the message \<open>digits_message\<close>.
\<close>

definition hex_source :: string where
  "hex_source = ''x = 0x'' @ replicate 4000 (CHR ''f'')"

definition hex_value :: int where
  "hex_value = 16 ^ 4000 - 1"

definition hex_tree :: node where
  "hex_tree =
     module
       [Obj (Node ''Assign''
          [(''targets'', Subs [Obj (Node ''Name''
              [(''id'', Atom (PStr ''x'')), (''ctx'', Sub (Node ''Store'' [] NoLocs))]
              (at 1 0 1 1))]),
           (''value'', Sub (Node ''Constant''
              [(''value'', Atom (PInt hex_value)), (''kind'', Atom PNone)]
              (at 1 4 1 4006))),
           (''type_comment'', Atom PNone)]
          (at 1 0 1 4006))]"

definition digits_message :: string where
  "digits_message =
     ''Exceeds the limit (4300 digits) for integer string conversion; '' @
     ''use sys.set_int_max_str_digits() to increase the limit''"

text \<open>\<^verbatim>\<open>def f(:\<close> is no Python: the parser raises SyntaxError with this message.\<close>

definition broken_source :: string where
  "broken_source = ''def f(:''"

definition broken_message :: string where
  "broken_message = ''invalid syntax (<unknown>, line 1)''"

text \<open>Stand-ins for the library on the examples: a parser that knows the source texts
  above and raises SyntaxError on any other, and a code generator that answers on their trees
  as \<open>ast.unparse\<close> does.\<close>

definition plain_str :: "field \<Rightarrow> string" where
  "plain_str v = ''<object>''"

definition example_parse :: "string \<Rightarrow> node result" where
  "example_parse code =
     (if code = print_xy_source then Inr print_xy_tree
      else if code = logging_xy_source then Inr logging_xy_tree
      else if code = deep_source then Inr deep_tree
      else if code = hex_source then Inr hex_tree
      else Inl broken_message)"

definition example_unparse :: "node \<Rightarrow> string result" where
  "example_unparse tree =
     (if erase tree = erase print_xy_tree then Inr print_xy_source
      else if erase tree = erase logging_xy_tree then Inr logging_xy_source
      else if erase tree = erase hex_tree then Inl digits_message
      else Inl unparse_recursion_message)"

section \<open>Lemmas on the analysis loop and on \<open>ast.walk\<close>\<close>


lemma analyze_loop_emitted:
  "analyze_loop py_str ns acc = Inr issues \<Longrightarrow> issues = acc @ concat (map (emitted py_str) ns)"
proof (induction ns arbitrary: acc)
  case Nil
  then show ?case by simp
next
  case (Cons n ns)
  show ?case
  proof (cases "empty_function n")
    case (Inl ex)
    with Cons.prems show ?thesis by simp
  next
    case (Inr b)
    show ?thesis
    proof (cases b)
      case False
      with Inr Cons.prems have "analyze_loop py_str ns acc = Inr issues" by simp
      from Cons.IH [OF this] Inr False show ?thesis by (simp add: emitted_def)
    next
      case True
      show ?thesis
      proof (cases "getattr n ''name''")
        case (Inl ex)
        with Inr True Cons.prems show ?thesis by simp
      next
        case name: (Inr name)
        with Inr True Cons.prems
        have "analyze_loop py_str ns (acc @ [finding py_str name]) = Inr issues" by simp
        from Cons.IH [OF this] Inr True name show ?thesis by (simp add: emitted_def)
      qed
    qed
  qed
qed

lemma walk_todo_append:
  "walk_todo (q @ r) = q @ walk_todo (r @ concat (map iter_child_nodes q))"
  by (induction q arbitrary: r) auto

lemma walk_todo_level: "walk_todo q = q @ walk_todo (concat (map iter_child_nodes q))"
  using walk_todo_append [of q "[]"] by simp

lemma mset_walk_todo: "mset (walk_todo q) = mset (concat (map preorder q))"
proof (induction q rule: walk_todo.induct)
  case 1
  show ?case by simp
next
  case (2 n todo)
  then show ?case by (simp add: preorder.simps [of n])
qed

lemma nodes_at_depth_beyond: "size n \<le> d \<Longrightarrow> nodes_at_depth d n = []"
proof (induction d arbitrary: n)
  case 0
  then show ?case by (cases n) simp
next
  case (Suc d)
  have "nodes_at_depth d c = []" if "c \<in> set (iter_child_nodes n)" for c
    using size_child [OF that] Suc.prems by (intro Suc.IH) simp
  then show ?case by simp
qed

lemma depth_step:
  "concat (map (nodes_at_depth (Suc d)) q) = concat (map (nodes_at_depth d) (concat (map iter_child_nodes q)))"
  by (induction q) auto

lemma depth_zero: "concat (map (nodes_at_depth 0) q) = q"
  by (induction q) auto

lemma children_of_depth:
  "concat (map iter_child_nodes (concat (map (nodes_at_depth k) q)))
     = concat (map (nodes_at_depth (Suc k)) q)"
proof (induction k arbitrary: q)
  case 0
  show ?case using depth_step [of 0 q] by (simp only: depth_zero)
next
  case (Suc k)
  have "concat (map iter_child_nodes (concat (map (nodes_at_depth (Suc k)) q)))
          = concat (map iter_child_nodes
              (concat (map (nodes_at_depth k) (concat (map iter_child_nodes q)))))"
    by (simp only: depth_step)
  also have "\<dots> = concat (map (nodes_at_depth (Suc k)) (concat (map iter_child_nodes q)))"
    by (rule Suc.IH)
  also have "\<dots> = concat (map (nodes_at_depth (Suc (Suc k))) q)"
    by (simp only: depth_step)
  finally show ?case .
qed

lemma walk_todo_levels:
  "walk_todo q = concat (map (\<lambda>d. concat (map (nodes_at_depth d) q)) [0..<k])
                   @ walk_todo (concat (map (nodes_at_depth k) q))"
proof (induction k)
  case 0
  show ?case by (simp add: depth_zero)
next
  case (Suc k)
  have "walk_todo (concat (map (nodes_at_depth k) q))
          = concat (map (nodes_at_depth k) q) @ walk_todo (concat (map (nodes_at_depth (Suc k)) q))"
    using walk_todo_level [of "concat (map (nodes_at_depth k) q)"]
    by (simp only: children_of_depth)
  with Suc show ?case by (simp del: nodes_at_depth.simps)
qed

lemma walk_level_order: "walk tree = level_order tree"
  using walk_todo_levels [of "[tree]" "size tree"] nodes_at_depth_beyond [of tree "size tree"]
  by (simp add: walk_def level_order_def)


lemma set_walk_preorder: "set (walk tree) = set (preorder tree)"
proof -
  have "mset (walk tree) = mset (preorder tree)"
    using mset_walk_todo [of "[tree]"] by (simp add: walk_def)
  then show ?thesis by (rule mset_eq_setD)
qed

section \<open>Lemmas on the library calls of the loop body\<close>

text \<open>With the frames a subtree needs, \<open>_fix\<close> and \<open>visit\<close> return it, and a tree as the
  parser builds it comes back as it is; with fewer they raise RecursionError. A result of
  \<open>_fix\<close> differs from its argument in location attributes at most.\<close>

lemma maximum_ge: "x \<in> set xs \<Longrightarrow> x \<le> maximum xs"
  unfolding maximum_def by (induction xs) auto

lemma maximum_le: "(maximum xs \<le> b) = (\<forall>x \<in> set xs. x \<le> b)"
  unfolding maximum_def by (induction xs) auto

lemma sequence_map_same: "\<forall>x \<in> set xs. g x = Inr x \<Longrightarrow> sequence (map g xs) = Inr xs"
  by (induction xs) auto

lemma sequence_Inr: "sequence rs = Inr ys \<Longrightarrow> rs = map Inr ys"
proof (induction rs arbitrary: ys rule: sequence.induct)
  case 1
  then show ?case by simp
next
  case (2 ex rs)
  then show ?case by simp
next
  case (3 x rs)
  then show ?case by (auto split: sum.splits)
qed

lemma sequence_Inl: "sequence rs = Inl e \<Longrightarrow> Inl e \<in> set rs"
proof (induction rs rule: sequence.induct)
  case 1
  then show ?case by simp
next
  case (2 ex rs)
  then show ?case by simp
next
  case (3 x rs)
  then show ?case by (auto split: sum.splits)
qed

lemma sequence_total: "\<forall>r \<in> set rs. \<exists>y. r = Inr y \<Longrightarrow> \<exists>ys. sequence rs = Inr ys"
proof (induction rs rule: sequence.induct)
  case 1
  show ?case by simp
next
  case (2 ex rs)
  then show ?case by simp
next
  case (3 x rs)
  then obtain ys where "sequence rs = Inr ys" by auto
  then show ?case by simp
qed

lemma map_Inr_nth:
  assumes "map F xs = map Inr ys" and "i < length ys"
  shows "length xs = length ys \<and> F (xs ! i) = Inr (ys ! i)"
proof -
  have len: "length xs = length ys" using assms(1) by (rule map_eq_imp_length_eq)
  have "map F xs ! i = map Inr ys ! i" using assms(1) by simp
  with len assms(2) show ?thesis by simp
qed

text \<open>What \<open>sequence\<close> returns for the fields of a node and for the items of a list,
  position by position.\<close>

lemma sequence_fields_same:
  assumes "sequence (map (\<lambda>x. map_sum id (Pair (fst x)) (g (snd x))) fs) = Inr fs'"
    and "\<And>x f. x \<in> set fs \<Longrightarrow> g (snd x) = Inr f \<Longrightarrow> r f (snd x)"
  shows "length fs' = length fs \<and> (\<forall>i < length fs. fst (fs' ! i) = fst (fs ! i)
           \<and> g (snd (fs ! i)) = Inr (snd (fs' ! i)) \<and> r (snd (fs' ! i)) (snd (fs ! i)))"
proof -
  have eq: "map (\<lambda>x. map_sum id (Pair (fst x)) (g (snd x))) fs = map Inr fs'"
    using assms(1) by (rule sequence_Inr)
  then have len: "length fs = length fs'" by (rule map_eq_imp_length_eq)
  have "fst (fs' ! i) = fst (fs ! i) \<and> g (snd (fs ! i)) = Inr (snd (fs' ! i))
          \<and> r (snd (fs' ! i)) (snd (fs ! i))" if i: "i < length fs" for i
  proof -
    from i len have i': "i < length fs'" by simp
    from map_Inr_nth [OF eq i']
    have at: "map_sum id (Pair (fst (fs ! i))) (g (snd (fs ! i))) = Inr (fs' ! i)" by simp
    then obtain f where f: "g (snd (fs ! i)) = Inr f" "fs' ! i = (fst (fs ! i), f)"
      by (cases "g (snd (fs ! i))") auto
    from i have "fs ! i \<in> set fs" by simp
    from assms(2) [OF this f(1)] f show ?thesis by simp
  qed
  with len show ?thesis by simp
qed

lemma sequence_items_same:
  assumes "sequence (map g xs) = Inr ys"
    and "\<And>x y. x \<in> set xs \<Longrightarrow> g x = Inr y \<Longrightarrow> r y x"
  shows "length ys = length xs \<and> (\<forall>i < length xs. g (xs ! i) = Inr (ys ! i) \<and> r (ys ! i) (xs ! i))"
proof -
  have eq: "map g xs = map Inr ys" using assms(1) by (rule sequence_Inr)
  then have len: "length xs = length ys" by (rule map_eq_imp_length_eq)
  have "g (xs ! i) = Inr (ys ! i) \<and> r (ys ! i) (xs ! i)" if i: "i < length xs" for i
  proof -
    from i len have i': "i < length ys" by simp
    from map_Inr_nth [OF eq i'] have at: "g (xs ! i) = Inr (ys ! i)" by simp
    from i have "xs ! i \<in> set xs" by simp
    from assms(2) [OF this at] at show ?thesis by simp
  qed
  with len show ?thesis by simp
qed


lemma filled_located: "located (Node k fs a) \<Longrightarrow> filled (inherited inh a) a = a"
  by (cases inh; cases a) auto

lemma fix_enough:
  "located n \<Longrightarrow> fix_frames n \<le> frames \<Longrightarrow> fix_node frames inh n = Inr n"
  "located_field f \<Longrightarrow> fix_frames_field f \<le> frames \<Longrightarrow> fix_field frames inh f = Inr f"
  "located_item i \<Longrightarrow> fix_frames_item i \<le> frames \<Longrightarrow> fix_item frames inh i = Inr i"
proof (induction frames inh n and frames inh f and frames inh i
    rule: fix_node_fix_field_fix_item.induct)
  case (1 frames inh k fs a)
  from "1.prems"(2) have fr: "\<not> frames < 3" by simp
  have "\<forall>x \<in> set fs. map_sum id (Pair (fst x))
          (fix_field (frames - 1) (inherited inh a) (snd x)) = Inr x"
  proof
    fix x assume x: "x \<in> set fs"
    with "1.prems"(1) have l: "located_field (snd x)" by simp
    from x have "fix_frames_field (snd x) \<le> maximum (map (\<lambda>x. fix_frames_field (snd x)) fs)"
      by (intro maximum_ge) simp
    with "1.prems"(2) have "fix_frames_field (snd x) \<le> frames - 1" by simp
    with "1.IH" [OF fr x l] show "map_sum id (Pair (fst x))
          (fix_field (frames - 1) (inherited inh a) (snd x)) = Inr x" by simp
  qed
  then have "sequence (map (\<lambda>x. map_sum id (Pair (fst x))
          (fix_field (frames - 1) (inherited inh a) (snd x))) fs) = Inr fs"
    by (rule sequence_map_same)
  with fr filled_located [OF "1.prems"(1)] show ?case by simp
next
  case (3 frames inh xs)
  have "\<forall>x \<in> set xs. fix_item frames inh x = Inr x"
  proof
    fix x assume x: "x \<in> set xs"
    with "3.prems"(1) have l: "located_item x" by simp
    from x have "fix_frames_item x \<le> maximum (map fix_frames_item xs)"
      by (intro maximum_ge) simp
    with "3.prems"(2) have "fix_frames_item x \<le> frames" by simp
    with "3.IH" [OF x l] show "fix_item frames inh x = Inr x" by simp
  qed
  then have "sequence (map (fix_item frames inh) xs) = Inr xs" by (rule sequence_map_same)
  then show ?case by simp
qed auto

lemma visit_enough:
  "conforms n \<Longrightarrow> visit_frames n \<le> frames \<Longrightarrow> visit frames n = Inr n"
  "conforms_field f \<Longrightarrow> visit_frames_field f \<le> frames \<Longrightarrow> visit_field frames f = Inr f"
  "conforms_item i \<Longrightarrow> visit_frames_item i \<le> frames \<Longrightarrow> visit_item frames i = Inr i"
proof (induction frames n and frames f and frames i rule: visit_visit_field_visit_item.induct)
  case (1 frames k fs a)
  from "1.prems"(1) have c: "\<not> (k = ''Constant'' \<and> 2 \<le> frames \<and> map_of fs ''value'' = None)"
    by auto
  from "1.prems"(2) have fr: "\<not> frames < own_frames k + 1" by simp
  have "\<forall>x \<in> set fs. map_sum id (Pair (fst x))
          (visit_field (frames - own_frames k) (snd x)) = Inr x"
  proof
    fix x assume x: "x \<in> set fs"
    with "1.prems"(1) have l: "conforms_field (snd x)" by simp
    from x have "visit_frames_field (snd x) \<le> maximum (map (\<lambda>x. visit_frames_field (snd x)) fs)"
      by (intro maximum_ge) simp
    with "1.prems"(2) have "visit_frames_field (snd x) \<le> frames - own_frames k" by simp
    with "1.IH" [OF c fr x l] show "map_sum id (Pair (fst x))
          (visit_field (frames - own_frames k) (snd x)) = Inr x" by simp
  qed
  then have "sequence (map (\<lambda>x. map_sum id (Pair (fst x))
          (visit_field (frames - own_frames k) (snd x))) fs) = Inr fs"
    by (rule sequence_map_same)
  with fr c show ?case by simp
next
  case (3 frames xs)
  have "\<forall>x \<in> set xs. visit_item frames x = Inr x"
  proof
    fix x assume x: "x \<in> set xs"
    with "3.prems"(1) have l: "conforms_item x" by simp
    from x have "visit_frames_item x \<le> maximum (map visit_frames_item xs)"
      by (intro maximum_ge) simp
    with "3.prems"(2) have "visit_frames_item x \<le> frames" by simp
    with "3.IH" [OF x l] show "visit_item frames x = Inr x" by simp
  qed
  then have "sequence (map (visit_item frames) xs) = Inr xs" by (rule sequence_map_same)
  then show ?case by simp
qed auto

lemma maximum_le_nth: "(\<And>i. i < length fs \<Longrightarrow> h (fs ! i) \<le> b) \<Longrightarrow> maximum (map h fs) \<le> b"
  by (auto simp: maximum_le in_set_conv_nth)

lemma fix_result:
  "fix_node frames inh n = Inr m \<Longrightarrow> erase m = erase n \<and> fix_frames n \<le> frames"
  "fix_field frames inh f = Inr g \<Longrightarrow> erase_field g = erase_field f \<and> fix_frames_field f \<le> frames"
  "fix_item frames inh i = Inr j \<Longrightarrow> erase_item j = erase_item i \<and> fix_frames_item i \<le> frames"
proof (induction frames inh n and frames inh f and frames inh i arbitrary: m and g and j
    rule: fix_node_fix_field_fix_item.induct)
  case (1 frames inh k fs a)
  from "1.prems" have fr: "\<not> frames < 3" by (auto split: if_splits)
  with "1.prems" obtain fs' where
    s: "sequence (map (\<lambda>x. map_sum id (Pair (fst x))
          (fix_field (frames - 1) (inherited inh a) (snd x))) fs) = Inr fs'"
    and m: "m = Node k fs' (filled (inherited inh a) a)"
    by (auto split: sum.splits)
  have all: "length fs' = length fs \<and> (\<forall>i < length fs. fst (fs' ! i) = fst (fs ! i)
       \<and> fix_field (frames - 1) (inherited inh a) (snd (fs ! i)) = Inr (snd (fs' ! i))
       \<and> (erase_field (snd (fs' ! i)) = erase_field (snd (fs ! i))
            \<and> fix_frames_field (snd (fs ! i)) \<le> frames - 1))"
    using s "1.IH" [OF fr] by (rule sequence_fields_same)
  have "map (\<lambda>x. (fst x, erase_field (snd x))) fs' = map (\<lambda>x. (fst x, erase_field (snd x))) fs"
    using all by (intro nth_equalityI) simp_all
  moreover have "maximum (map (\<lambda>x. fix_frames_field (snd x)) fs) \<le> frames - 1"
    using all by (intro maximum_le_nth) simp
  ultimately show ?case using m fr by simp
next
  case (2 frames inh c)
  then show ?case by (cases "fix_node frames inh c") auto
next
  case (3 frames inh xs)
  then obtain ys where s: "sequence (map (fix_item frames inh) xs) = Inr ys" and g: "g = Subs ys"
    by (cases "sequence (map (fix_item frames inh) xs)") auto
  have all: "length ys = length xs \<and> (\<forall>i < length xs. fix_item frames inh (xs ! i) = Inr (ys ! i)
       \<and> (erase_item (ys ! i) = erase_item (xs ! i) \<and> fix_frames_item (xs ! i) \<le> frames))"
    using s "3.IH" by (rule sequence_items_same)
  have "map erase_item ys = map erase_item xs"
    using all by (intro nth_equalityI) simp_all
  moreover have "maximum (map fix_frames_item xs) \<le> frames"
    using all by (intro maximum_le_nth) simp
  ultimately show ?case using g by simp
next
  case (4 frames inh v)
  then show ?case by auto
next
  case (5 frames inh c)
  then show ?case by (cases "fix_node frames inh c") auto
next
  case (6 frames inh v)
  then show ?case by auto
qed

lemma fix_total:
  "fix_frames n \<le> frames \<Longrightarrow> \<exists>m. fix_node frames inh n = Inr m"
  "fix_frames_field f \<le> frames \<Longrightarrow> \<exists>g. fix_field frames inh f = Inr g"
  "fix_frames_item i \<le> frames \<Longrightarrow> \<exists>j. fix_item frames inh i = Inr j"
proof (induction frames inh n and frames inh f and frames inh i
    rule: fix_node_fix_field_fix_item.induct)
  case (1 frames inh k fs a)
  from "1.prems" have fr: "\<not> frames < 3" by simp
  have "\<forall>r \<in> set (map (\<lambda>x. map_sum id (Pair (fst x))
          (fix_field (frames - 1) (inherited inh a) (snd x))) fs). \<exists>y. r = Inr y"
  proof
    fix r assume "r \<in> set (map (\<lambda>x. map_sum id (Pair (fst x))
          (fix_field (frames - 1) (inherited inh a) (snd x))) fs)"
    then obtain x where x: "x \<in> set fs"
      and r: "r = map_sum id (Pair (fst x)) (fix_field (frames - 1) (inherited inh a) (snd x))"
      by auto
    from x have "fix_frames_field (snd x) \<le> maximum (map (\<lambda>x. fix_frames_field (snd x)) fs)"
      by (intro maximum_ge) simp
    with "1.prems" have "fix_frames_field (snd x) \<le> frames - 1" by simp
    with "1.IH" [OF fr x] obtain g where
      "fix_field (frames - 1) (inherited inh a) (snd x) = Inr g" by blast
    with r show "\<exists>y. r = Inr y" by simp
  qed
  then obtain fs' where "sequence (map (\<lambda>x. map_sum id (Pair (fst x))
          (fix_field (frames - 1) (inherited inh a) (snd x))) fs) = Inr fs'"
    using sequence_total by blast
  with fr show ?case by simp
next
  case (3 frames inh xs)
  have "\<forall>r \<in> set (map (fix_item frames inh) xs). \<exists>y. r = Inr y"
  proof
    fix r assume "r \<in> set (map (fix_item frames inh) xs)"
    then obtain x where x: "x \<in> set xs" and r: "r = fix_item frames inh x" by auto
    from x have "fix_frames_item x \<le> maximum (map fix_frames_item xs)"
      by (intro maximum_ge) simp
    with "3.prems" have "fix_frames_item x \<le> frames" by simp
    with "3.IH" [OF x] r show "\<exists>y. r = Inr y" by simp
  qed
  then obtain ys where "sequence (map (fix_item frames inh) xs) = Inr ys"
    using sequence_total by blast
  then show ?case by simp
qed auto

lemma fix_error:
  "fix_node frames inh n = Inl e \<Longrightarrow> e = recursion_error"
  "fix_field frames inh f = Inl e \<Longrightarrow> e = recursion_error"
  "fix_item frames inh i = Inl e \<Longrightarrow> e = recursion_error"
proof (induction frames inh n and frames inh f and frames inh i
    rule: fix_node_fix_field_fix_item.induct)
  case (1 frames inh k fs a)
  show ?case
  proof (cases "frames < 3")
    case True
    with "1.prems" show ?thesis by simp
  next
    case False
    with "1.prems" have "sequence (map (\<lambda>x. map_sum id (Pair (fst x))
          (fix_field (frames - 1) (inherited inh a) (snd x))) fs) = Inl e"
      by (auto split: sum.splits)
    then have "Inl e \<in> set (map (\<lambda>x. map_sum id (Pair (fst x))
          (fix_field (frames - 1) (inherited inh a) (snd x))) fs)"
      by (rule sequence_Inl)
    then obtain x where x: "x \<in> set fs"
      and "map_sum id (Pair (fst x)) (fix_field (frames - 1) (inherited inh a) (snd x)) = Inl e"
      by auto
    then have "fix_field (frames - 1) (inherited inh a) (snd x) = Inl e"
      by (cases "fix_field (frames - 1) (inherited inh a) (snd x)") auto
    with "1.IH" [OF False x] show ?thesis by simp
  qed
next
  case (2 frames inh c)
  then show ?case by (cases "fix_node frames inh c") auto
next
  case (3 frames inh xs)
  then have "sequence (map (fix_item frames inh) xs) = Inl e"
    by (cases "sequence (map (fix_item frames inh) xs)") auto
  then have "Inl e \<in> set (map (fix_item frames inh) xs)" by (rule sequence_Inl)
  then obtain x where "x \<in> set xs" "fix_item frames inh x = Inl e" by auto
  with "3.IH" show ?case by simp
next
  case (5 frames inh c)
  then show ?case by (cases "fix_node frames inh c") auto
qed auto

lemma visit_result:
  "visit frames n = Inr m \<Longrightarrow> m = n \<and> visit_frames n \<le> frames"
  "visit_field frames f = Inr g \<Longrightarrow> g = f \<and> visit_frames_field f \<le> frames"
  "visit_item frames i = Inr j \<Longrightarrow> j = i \<and> visit_frames_item i \<le> frames"
proof (induction frames n and frames f and frames i arbitrary: m and g and j
    rule: visit_visit_field_visit_item.induct)
  case (1 frames k fs a)
  from "1.prems" have c: "\<not> (k = ''Constant'' \<and> 2 \<le> frames \<and> map_of fs ''value'' = None)"
    by (auto split: if_splits)
  with "1.prems" have fr: "\<not> frames < own_frames k + 1" by (auto split: if_splits)
  with c "1.prems" obtain fs' where
    s: "sequence (map (\<lambda>x. map_sum id (Pair (fst x))
          (visit_field (frames - own_frames k) (snd x))) fs) = Inr fs'"
    and m: "m = Node k fs' a"
    by (auto split: sum.splits if_splits)
  have all: "length fs' = length fs \<and> (\<forall>i < length fs. fst (fs' ! i) = fst (fs ! i)
       \<and> visit_field (frames - own_frames k) (snd (fs ! i)) = Inr (snd (fs' ! i))
       \<and> (snd (fs' ! i) = snd (fs ! i)
            \<and> visit_frames_field (snd (fs ! i)) \<le> frames - own_frames k))"
    using s "1.IH" [OF c fr] by (rule sequence_fields_same)
  have "fs' = fs"
    using all by (intro nth_equalityI) (simp_all add: prod_eq_iff)
  moreover have "maximum (map (\<lambda>x. visit_frames_field (snd x)) fs) \<le> frames - own_frames k"
    using all by (intro maximum_le_nth) simp
  ultimately show ?case using m fr by simp
next
  case (2 frames c)
  then show ?case by (cases "visit frames c") auto
next
  case (3 frames xs)
  then obtain ys where s: "sequence (map (visit_item frames) xs) = Inr ys" and g: "g = Subs ys"
    by (cases "sequence (map (visit_item frames) xs)") auto
  have all: "length ys = length xs \<and> (\<forall>i < length xs. visit_item frames (xs ! i) = Inr (ys ! i)
       \<and> (ys ! i = xs ! i \<and> visit_frames_item (xs ! i) \<le> frames))"
    using s "3.IH" by (rule sequence_items_same)
  have "ys = xs"
    using all by (intro nth_equalityI) simp_all
  moreover have "maximum (map visit_frames_item xs) \<le> frames"
    using all by (intro maximum_le_nth) simp
  ultimately show ?case using g by simp
next
  case (4 frames v)
  then show ?case by auto
next
  case (5 frames c)
  then show ?case by (cases "visit frames c") auto
next
  case (6 frames v)
  then show ?case by auto
qed

lemma visit_error:
  "conforms n \<Longrightarrow> visit frames n = Inl e \<Longrightarrow> e = recursion_error"
  "conforms_field f \<Longrightarrow> visit_field frames f = Inl e \<Longrightarrow> e = recursion_error"
  "conforms_item i \<Longrightarrow> visit_item frames i = Inl e \<Longrightarrow> e = recursion_error"
proof (induction frames n and frames f and frames i rule: visit_visit_field_visit_item.induct)
  case (1 frames k fs a)
  from "1.prems"(1) have c: "\<not> (k = ''Constant'' \<and> 2 \<le> frames \<and> map_of fs ''value'' = None)"
    by auto
  show ?case
  proof (cases "frames < own_frames k + 1")
    case True
    with c "1.prems"(2) show ?thesis by (auto split: if_splits)
  next
    case False
    with c "1.prems"(2) have "sequence (map (\<lambda>x. map_sum id (Pair (fst x))
          (visit_field (frames - own_frames k) (snd x))) fs) = Inl e"
      by (auto split: sum.splits if_splits)
    then have "Inl e \<in> set (map (\<lambda>x. map_sum id (Pair (fst x))
          (visit_field (frames - own_frames k) (snd x))) fs)"
      by (rule sequence_Inl)
    then obtain x where x: "x \<in> set fs"
      and "map_sum id (Pair (fst x)) (visit_field (frames - own_frames k) (snd x)) = Inl e"
      by auto
    then have "visit_field (frames - own_frames k) (snd x) = Inl e"
      by (cases "visit_field (frames - own_frames k) (snd x)") auto
    moreover from x "1.prems"(1) have "conforms_field (snd x)" by simp
    ultimately show ?thesis using "1.IH" [OF c False x] by simp
  qed
next
  case (2 frames c)
  then show ?case by (cases "visit frames c") auto
next
  case (3 frames xs)
  then have "sequence (map (visit_item frames) xs) = Inl e"
    by (cases "sequence (map (visit_item frames) xs)") auto
  then have "Inl e \<in> set (map (visit_item frames) xs)" by (rule sequence_Inl)
  then obtain x where "x \<in> set xs" "visit_item frames x = Inl e" by auto
  with "3.IH" "3.prems"(1) show ?case by simp
next
  case (5 frames c)
  then show ?case by (cases "visit frames c") auto
qed auto

lemma map_of_erase:
  "(map_of (map (\<lambda>x. (fst x, erase_field (snd x))) fs) name = None) = (map_of fs name = None)"
  by (induction fs) auto

lemma conforms_erase:
  "conforms (erase n) = conforms n"
  "conforms_field (erase_field f) = conforms_field f"
  "conforms_item (erase_item i) = conforms_item i"
  by (induction n and f and i rule: erase_erase_field_erase_item.induct)
     (simp_all add: map_of_erase)

lemma visit_frames_erase:
  "visit_frames (erase n) = visit_frames n"
  "visit_frames_field (erase_field f) = visit_frames_field f"
  "visit_frames_item (erase_item i) = visit_frames_item i"
proof (induction n and f and i rule: erase_erase_field_erase_item.induct)
  case (1 k fs a)
  then have eq: "map (\<lambda>x. visit_frames_field (erase_field (snd x))) fs
    = map (\<lambda>x. visit_frames_field (snd x)) fs" by simp
  show ?case by (simp add: comp_def eq del: map_eq_conv)
next
  case (3 xs)
  then have eq: "map (\<lambda>x. visit_frames_item (erase_item x)) xs = map visit_frames_item xs" by simp
  show ?case by (simp add: comp_def eq del: map_eq_conv)
qed simp_all

section \<open>Lemmas on the refactoring loop\<close>

lemma set_field_same: "map_of fs name = Some f \<Longrightarrow> set_field name f fs = fs"
  by (induction fs) (auto split: if_splits)

lemma get_Field:
  "get t (Field i # p) = Some n \<Longrightarrow>
     \<exists>c. i < length (fields t) \<and> snd (fields t ! i) = Sub c \<and> get c p = Some n"
  by (auto split: if_splits field.splits)

lemma get_Item:
  "get t (Item i j # p) = Some n \<Longrightarrow>
     \<exists>xs c. i < length (fields t) \<and> snd (fields t ! i) = Subs xs \<and> j < length xs
            \<and> xs ! j = Obj c \<and> get c p = Some n"
  by (auto split: if_splits field.splits item.splits)

lemma put_get: "get t p = Some n \<Longrightarrow> put t p n = t"
proof (induction p arbitrary: t)
  case Nil
  then show ?case by simp
next
  case (Cons s p)
  show ?case
  proof (cases s)
    case (Field i)
    with Cons.prems obtain c where
      c: "i < length (fields t)" "snd (fields t ! i) = Sub c" "get c p = Some n"
      using get_Field by blast
    have "put c p n = c" using Cons.IH c(3) by simp
    moreover have "(fst (fields t ! i), Sub c) = fields t ! i"
      using c(2) by (simp add: prod_eq_iff)
    then have "(fields t)[i := (fst (fields t ! i), Sub c)] = fields t"
      by simp
    ultimately show ?thesis using c Field by (cases t) simp
  next
    case (Item i j)
    with Cons.prems obtain xs c where
      c: "i < length (fields t)" "snd (fields t ! i) = Subs xs" "j < length xs"
         "xs ! j = Obj c" "get c p = Some n"
      using get_Item by blast
    have "put c p n = c" using Cons.IH c(5) by simp
    moreover have "xs[j := Obj c] = xs" using c(4) [symmetric] by simp
    moreover have "(fst (fields t ! i), Subs xs) = fields t ! i"
      using c(2) by (simp add: prod_eq_iff)
    then have "(fields t)[i := (fst (fields t ! i), Subs xs)] = fields t"
      by simp
    ultimately show ?thesis using c Item by (cases t) simp
  qed
qed

lemma located_fields: "located t \<Longrightarrow> x \<in> set (fields t) \<Longrightarrow> located_field (snd x)"
  by (cases t) simp

lemma conforms_fields: "conforms t \<Longrightarrow> x \<in> set (fields t) \<Longrightarrow> conforms_field (snd x)"
  by (cases t) simp

lemma get_located: "located t \<Longrightarrow> get t p = Some n \<Longrightarrow> located n"
proof (induction p arbitrary: t)
  case Nil
  then show ?case by simp
next
  case (Cons s p)
  show ?case
  proof (cases s)
    case (Field i)
    with Cons.prems obtain c where
      c: "i < length (fields t)" "snd (fields t ! i) = Sub c" "get c p = Some n"
      using get_Field by blast
    have "located_field (snd (fields t ! i))"
      using located_fields [OF Cons.prems(1)] c(1) by simp
    then have "located c" using c(2) by simp
    then show ?thesis using Cons.IH c(3) by blast
  next
    case (Item i j)
    with Cons.prems obtain xs c where
      c: "i < length (fields t)" "snd (fields t ! i) = Subs xs" "j < length xs"
         "xs ! j = Obj c" "get c p = Some n"
      using get_Item by blast
    have "located_field (snd (fields t ! i))"
      using located_fields [OF Cons.prems(1)] c(1) by simp
    then have "located_item (xs ! j)" using c(2,3) by simp
    then have "located c" using c(4) by simp
    then show ?thesis using Cons.IH c(5) by blast
  qed
qed

lemma get_conforms: "conforms t \<Longrightarrow> get t p = Some n \<Longrightarrow> conforms n"
proof (induction p arbitrary: t)
  case Nil
  then show ?case by simp
next
  case (Cons s p)
  show ?case
  proof (cases s)
    case (Field i)
    with Cons.prems obtain c where
      c: "i < length (fields t)" "snd (fields t ! i) = Sub c" "get c p = Some n"
      using get_Field by blast
    have "conforms_field (snd (fields t ! i))"
      using conforms_fields [OF Cons.prems(1)] c(1) by simp
    then have "conforms c" using c(2) by simp
    then show ?thesis using Cons.IH c(3) by blast
  next
    case (Item i j)
    with Cons.prems obtain xs c where
      c: "i < length (fields t)" "snd (fields t ! i) = Subs xs" "j < length xs"
         "xs ! j = Obj c" "get c p = Some n"
      using get_Item by blast
    have "conforms_field (snd (fields t ! i))"
      using conforms_fields [OF Cons.prems(1)] c(1) by simp
    then have "conforms_item (xs ! j)" using c(2,3) by simp
    then have "conforms c" using c(4) by simp
    then show ?thesis using Cons.IH c(5) by blast
  qed
qed

lemma is_print_call_conforms: "conforms n \<Longrightarrow> \<exists>b. is_print_call n = Inr b"
proof (cases n)
  case (Node k fs a)
  assume cn: "conforms n"
  show ?thesis
  proof (cases "k = ''Call''")
    case False
    then show ?thesis by (auto simp: is_print_call_def Node)
  next
    case True
    with cn Node obtain f where f: "map_of fs ''func'' = Some f" by auto
    show ?thesis
    proof (cases f)
      case (Sub func)
      have "(''func'', f) \<in> set fs" using f by (rule map_of_SomeD)
      with cn Node Sub have cf: "conforms func" by fastforce
      show ?thesis
      proof (cases "kind func = ''Name''")
        case False
        then show ?thesis using True f Sub by (auto simp: is_print_call_def Node getattr_def)
      next
        case isname: True
        with cf obtain v where "map_of (fields func) ''id'' = Some v" by (cases func) auto
        then show ?thesis using True f Sub isname
          by (simp add: is_print_call_def Node getattr_def)
      qed
    qed (use True f in \<open>auto simp: is_print_call_def Node getattr_def\<close>)
  qed
qed

lemma child_in_preorder: "c \<in> set (iter_child_nodes t) \<Longrightarrow> set (preorder c) \<subseteq> set (preorder t)"
  by (subst (2) preorder.simps) auto

lemma item_nodes_nth: "j < length xs \<Longrightarrow> xs ! j = Obj c \<Longrightarrow> c \<in> set (item_nodes xs)"
proof (induction xs arbitrary: j rule: item_nodes.induct)
  case 1
  then show ?case by simp
next
  case (2 d xs)
  then show ?case by (cases j) auto
next
  case (3 v xs)
  then show ?case by (cases j) auto
qed

lemma field_child:
  "i < length (fields t) \<Longrightarrow> c \<in> set (field_nodes (snd (fields t ! i)))
     \<Longrightarrow> c \<in> set (iter_child_nodes t)"
  unfolding iter_child_nodes_def using nth_mem by fastforce

lemma get_in_preorder: "get t p = Some n \<Longrightarrow> n \<in> set (preorder t)"
proof (induction p arbitrary: t)
  case Nil
  then show ?case by (subst preorder.simps) simp
next
  case (Cons s p)
  show ?case
  proof (cases s)
    case (Field i)
    with Cons.prems obtain c where
      c: "i < length (fields t)" "snd (fields t ! i) = Sub c" "get c p = Some n"
      using get_Field by blast
    have "c \<in> set (iter_child_nodes t)" using field_child [OF c(1)] c(2) by simp
    then show ?thesis using Cons.IH [OF c(3)] child_in_preorder by blast
  next
    case (Item i j)
    with Cons.prems obtain xs c where
      c: "i < length (fields t)" "snd (fields t ! i) = Subs xs" "j < length xs"
         "xs ! j = Obj c" "get c p = Some n"
      using get_Item by blast
    have "c \<in> set (item_nodes xs)" using c(3,4) by (rule item_nodes_nth)
    then have "c \<in> set (iter_child_nodes t)" using field_child [OF c(1)] c(2) by simp
    then show ?thesis using Cons.IH [OF c(5)] child_in_preorder by blast
  qed
qed

lemma logging_info_call_func:
  "logging_info_call n \<Longrightarrow>
     \<exists>func. map_of (fields n) ''func'' = Some (Sub func) \<and> kind func = ''Attribute''"
  unfolding logging_info_call_def
  by (cases "map_of (fields n) ''func''"; simp split: field.splits)

lemma logging_info_call_not_print: "logging_info_call n \<Longrightarrow> is_print_call n = Inr False"
proof -
  assume "logging_info_call n"
  then obtain func where "map_of (fields n) ''func'' = Some (Sub func)" "kind func = ''Attribute''"
    using logging_info_call_func by blast
  then show ?thesis by (simp add: is_print_call_def getattr_def)
qed


subsection \<open>The positions are those of \<open>ast.walk\<close>\<close>

text \<open>The loop of \<open>refactor_code\<close> goes through \<open>walk_positions\<close>: at these positions
  stand the nodes that \<open>ast.walk\<close> yields, in the same order.\<close>

lemma get_append:
  "get t (p @ q) = (case get t p of None \<Rightarrow> None | Some n \<Rightarrow> get n q)"
proof (induction p arbitrary: t)
  case Nil
  show ?case by simp
next
  case (Cons s p)
  show ?case
    by (cases s) (simp_all add: Cons.IH split: field.splits item.splits)
qed

lemma item_places_get:
  "(p', c) \<in> set (item_places p i j xs) \<Longrightarrow>
     \<exists>k. p' = p @ [Item i (j + k)] \<and> k < length xs \<and> xs ! k = Obj c"
proof (induction p i j xs rule: item_places.induct)
  case (1 p i j)
  then show ?case by simp
next
  case (2 p i j d xs)
  show ?case
  proof (cases "(p', c) = (p @ [Item i j], d)")
    case True
    then have "p' = p @ [Item i (j + 0)] \<and> 0 < length (Obj d # xs) \<and> (Obj d # xs) ! 0 = Obj c"
      by simp
    then show ?thesis by blast
  next
    case False
    with "2.prems" have "(p', c) \<in> set (item_places p i (Suc j) xs)" by auto
    from "2.IH" [OF this] obtain k where
      "p' = p @ [Item i (Suc j + k)]" "k < length xs" "xs ! k = Obj c" by blast
    then have "p' = p @ [Item i (j + Suc k)] \<and> Suc k < length (Obj d # xs)
               \<and> (Obj d # xs) ! Suc k = Obj c" by simp
    then show ?thesis by blast
  qed
next
  case (3 p i j v xs)
  then have "(p', c) \<in> set (item_places p i (Suc j) xs)" by simp
  from "3.IH" [OF this] obtain k where
    "p' = p @ [Item i (Suc j + k)]" "k < length xs" "xs ! k = Obj c" by blast
  then have "p' = p @ [Item i (j + Suc k)] \<and> Suc k < length (Lit v # xs)
             \<and> (Lit v # xs) ! Suc k = Obj c" by simp
  then show ?case by blast
qed

lemma field_places_get:
  assumes "(p', c) \<in> set (field_places p i f)"
    and "i < length (fields n)" and "snd (fields n ! i) = f"
  shows "\<exists>s. p' = p @ [s] \<and> get n [s] = Some c"
proof (cases f)
  case (Sub d)
  with assms have "p' = p @ [Field i] \<and> get n [Field i] = Some c" by simp
  then show ?thesis by blast
next
  case (Subs xs)
  with assms(1) obtain k where "p' = p @ [Item i k]" "k < length xs" "xs ! k = Obj c"
    using item_places_get [of p' c p i 0 xs] by auto
  with assms(2,3) Subs have "p' = p @ [Item i k] \<and> get n [Item i k] = Some c" by simp
  then show ?thesis by blast
next
  case (Atom v)
  with assms(1) show ?thesis by simp
qed

lemma fields_places_get:
  "(p', c) \<in> set (fields_places p i fs) \<Longrightarrow>
     \<exists>k < length fs. (p', c) \<in> set (field_places p (i + k) (snd (fs ! k)))"
proof (induction fs arbitrary: i)
  case Nil
  then show ?case by simp
next
  case (Cons x fs)
  show ?case
  proof (cases "(p', c) \<in> set (field_places p i (snd x))")
    case True
    then have "0 < length (x # fs) \<and> (p', c) \<in> set (field_places p (i + 0) (snd ((x # fs) ! 0)))"
      by simp
    then show ?thesis by blast
  next
    case False
    with Cons.prems have "(p', c) \<in> set (fields_places p (Suc i) fs)" by simp
    from Cons.IH [OF this] obtain k where
      "k < length fs" "(p', c) \<in> set (field_places p (Suc i + k) (snd (fs ! k)))" by blast
    then have "Suc k < length (x # fs)
               \<and> (p', c) \<in> set (field_places p (i + Suc k) (snd ((x # fs) ! Suc k)))" by simp
    then show ?thesis by blast
  qed
qed

lemma child_places_get:
  assumes "(p', c) \<in> set (child_places p n)"
  shows "\<exists>s. p' = p @ [s] \<and> get n [s] = Some c"
proof -
  from assms obtain k where k: "k < length (fields n)"
    "(p', c) \<in> set (field_places p k (snd (fields n ! k)))"
    using fields_places_get [of p' c p 0 "fields n"] by (auto simp: child_places_def)
  then show ?thesis using field_places_get by blast
qed

lemma walk_places_valid:
  "\<forall>x \<in> set todo. get t (fst x) = Some (snd x) \<Longrightarrow>
     \<forall>x \<in> set (walk_places_todo todo). get t (fst x) = Some (snd x)"
proof (induction todo rule: walk_places_todo.induct)
  case 1
  show ?case by simp
next
  case (2 x todo)
  have "\<forall>y \<in> set (child_places (fst x) (snd x)). get t (fst y) = Some (snd y)"
  proof
    fix y assume "y \<in> set (child_places (fst x) (snd x))"
    then have "(fst y, snd y) \<in> set (child_places (fst x) (snd x))" by simp
    then obtain s where s: "fst y = fst x @ [s]" "get (snd x) [s] = Some (snd y)"
      using child_places_get by blast
    moreover have "get t (fst x) = Some (snd x)" using "2.prems" by simp
    ultimately show "get t (fst y) = Some (snd y)" by (simp add: get_append)
  qed
  with "2.prems" have "\<forall>y \<in> set (todo @ child_places (fst x) (snd x)). get t (fst y) = Some (snd y)"
    by auto
  from "2.IH" [OF this] "2.prems" show ?case by simp
qed

lemma walk_places_nodes: "map snd (walk_places_todo todo) = walk_todo (map snd todo)"
  by (induction todo rule: walk_places_todo.induct) (simp_all add: child_places_nodes)

lemma walk_positions_nodes: "map (get tree) (walk_positions tree) = map Some (walk tree)"
proof -
  define start :: "(pos \<times> node) list" where "start = [([], tree)]"
  have "\<forall>x \<in> set (walk_places_todo start). get tree (fst x) = Some (snd x)"
    by (rule walk_places_valid) (simp add: start_def)
  then have "map (get tree) (map fst (walk_places_todo start))
               = map Some (map snd (walk_places_todo start))"
    by simp
  also have "map snd (walk_places_todo start) = walk_todo (map snd start)"
    by (rule walk_places_nodes)
  also have "map snd start = [tree]" by (simp add: start_def)
  finally show ?thesis by (simp only: walk_positions_def walk_def start_def)
qed

subsection \<open>One turn of the loop, and all of them\<close>

lemma copy_location_fields:
  "kind (copy_location n old) = kind n \<and> fields (copy_location n old) = fields n"
  by (cases "attributes n"; cases "attributes old") (simp_all add: copy_location_def)

lemma same_fields:
  assumes "kind m = kind n" and "fields m = fields n"
  shows "fix_frames m = fix_frames n" and "visit_frames m = visit_frames n"
    and "erase m = erase n"
  using assms by (cases m; cases n; simp)+

lemma new_node_frames:
  "fix_frames (copy_location (new_call args) node) = fix_frames (new_call args)"
  "visit_frames (copy_location (new_call args) node) = visit_frames (new_call args)"
  "erase (copy_location (new_call args) node) = erase (new_call args)"
  using copy_location_fields [of "new_call args" node]
    same_fields [of "copy_location (new_call args) node" "new_call args"] by simp_all

lemma conforms_new_call: "conforms (new_call args) = conforms_field args"
  by (auto simp: new_call_def)

lemma same_erase:
  assumes "erase m = erase n"
  shows "conforms m = conforms n" and "visit_frames m = visit_frames n"
  using assms conforms_erase(1) [of m] conforms_erase(1) [of n]
    visit_frames_erase(1) [of m] visit_frames_erase(1) [of n] by simp_all

lemma fix_frames_least: "3 \<le> fix_frames n"
  by (cases n) simp

lemma fix_args:
  assumes "fix_node frames inh (Node k [(n1, f1), (''args'', args), (n3, f3)] a) = Inr m"
    and "located_field args" and "n1 \<noteq> ''args''"
  shows "getattr m ''args'' = Inr args"
proof -
  from assms(1) have fr: "\<not> frames < 3" by (auto split: if_splits)
  obtain g1 where g1: "fix_field (frames - 1) (inherited inh a) f1 = Inr g1"
    using assms(1) fr by (cases "fix_field (frames - 1) (inherited inh a) f1") auto
  obtain g2 where g2: "fix_field (frames - 1) (inherited inh a) args = Inr g2"
    using assms(1) fr g1 by (cases "fix_field (frames - 1) (inherited inh a) args") auto
  obtain g3 where g3: "fix_field (frames - 1) (inherited inh a) f3 = Inr g3"
    using assms(1) fr g1 g2 by (cases "fix_field (frames - 1) (inherited inh a) f3") auto
  from fix_result(2) [OF g2] have "fix_frames_field args \<le> frames - 1" by simp
  with assms(2) have "fix_field (frames - 1) (inherited inh a) args = Inr args"
    by (rule fix_enough(2))
  with g2 have "g2 = args" by simp
  with assms(1,3) fr g1 g2 g3 show ?thesis by (auto simp: getattr_def)
qed

lemma new_node_args:
  assumes "fix_missing_locations frames (copy_location (new_call args) node) = Inr m"
    and "located_field args"
  shows "getattr m ''args'' = Inr args"
proof -
  obtain a where "copy_location (new_call args) node
      = Node (kind (new_call args)) (fields (new_call args)) a"
    using copy_location_fields [of "new_call args" node]
    by (cases "copy_location (new_call args) node") auto
  with assms(1) show ?thesis
    unfolding fix_missing_locations_def new_call_def
    by (simp only: node.sel) (rule fix_args [OF _ assms(2)], assumption, simp)
qed

text \<open>One turn of the loop on a tree as the parser builds it: the tree stays as it is when the
  frames suffice at the node, and RecursionError is raised when they do not.\<close>

lemma new_node_enough:
  assumes "located_field args" and "conforms_field args" and "loop_frames args \<le> frames"
  shows "\<exists>m. fix_missing_locations frames (copy_location (new_call args) node) = Inr m
            \<and> visit frames m = Inr m \<and> getattr m ''args'' = Inr args"
proof -
  from assms(3) have lf: "1 + fix_frames (new_call args) \<le> frames"
    and vf: "visit_frames (new_call args) \<le> frames"
    by (simp_all add: loop_frames_def)
  from lf new_node_frames(1) [of args node]
  have ff: "fix_frames (copy_location (new_call args) node) \<le> frames - 1" by arith
  from fix_total(1) [OF ff] obtain m where
    m: "fix_missing_locations frames (copy_location (new_call args) node) = Inr m"
    unfolding fix_missing_locations_def by blast
  then have "erase m = erase (new_call args)"
    unfolding fix_missing_locations_def using fix_result(1) new_node_frames(3) by metis
  then have "conforms m" and "visit_frames m \<le> frames"
    using same_erase [of m "new_call args"] assms(2) vf by (simp_all add: conforms_new_call)
  then have "visit frames m = Inr m" by (rule visit_enough)
  with m new_node_args [OF m assms(1)] show ?thesis by simp
qed

lemma new_node_short:
  assumes "conforms_field args" and "\<not> loop_frames args \<le> frames"
  shows "(case fix_missing_locations frames (copy_location (new_call args) node) of
            Inl ex \<Rightarrow> Inl ex
          | Inr m \<Rightarrow> (case visit frames m of Inl ex \<Rightarrow> Inl ex | Inr m' \<Rightarrow> Inr (h m')))
         = Inl recursion_error"
proof (cases "fix_missing_locations frames (copy_location (new_call args) node)")
  case (Inl ex)
  then have "ex = recursion_error" unfolding fix_missing_locations_def by (rule fix_error)
  with Inl show ?thesis by simp
next
  case (Inr m)
  then have r: "erase m = erase (copy_location (new_call args) node)
      \<and> fix_frames (copy_location (new_call args) node) \<le> frames - 1"
    unfolding fix_missing_locations_def by (rule fix_result)
  then have e: "erase m = erase (new_call args)" by (simp add: new_node_frames)
  from r have "fix_frames (copy_location (new_call args) node) \<le> frames - 1" by simp
  with fix_frames_least [of "new_call args"] new_node_frames(1) [of args node]
  have ff: "1 + fix_frames (new_call args) \<le> frames" by arith
  have c: "conforms m" using same_erase(1) [OF e] assms(1) by (simp add: conforms_new_call)
  show ?thesis
  proof (cases "visit frames m")
    case (Inl ex)
    with c have "ex = recursion_error" using visit_error(1) by blast
    with Inl Inr show ?thesis by simp
  next
    case v: (Inr m')
    then have "visit_frames m \<le> frames" using visit_result(1) by blast
    then have "visit_frames (new_call args) \<le> frames" using same_erase(2) [OF e] by simp
    with ff assms(2) show ?thesis by (simp add: loop_frames_def)
  qed
qed

lemma refactor_step_result:
  assumes "located tree" and "conforms tree" and "get tree p = Some node"
  shows "refactor_step frames tree p
           = (if frames_suffice frames node then Inr tree else Inl recursion_error)"
proof -
  have ln: "located node" using assms(1,3) by (rule get_located)
  have cn: "conforms node" using assms(2,3) by (rule get_conforms)
  obtain b where b: "is_print_call node = Inr b" using is_print_call_conforms [OF cn] by blast
  show ?thesis
  proof (cases b)
    case False
    with assms(3) b show ?thesis by (simp add: refactor_step_def frames_suffice_def)
  next
    case True
    with b have "kind node = ''Call''" by (auto simp: is_print_call_def split: if_splits)
    with cn obtain args where args: "map_of (fields node) ''args'' = Some args"
      by (cases node) auto
    then have mem: "(''args'', args) \<in> set (fields node)" by (rule map_of_SomeD)
    have la: "located_field args" using located_fields [OF ln mem] by simp
    have ca: "conforms_field args" using conforms_fields [OF cn mem] by simp
    have ga: "getattr node ''args'' = Inr args" using args by (simp add: getattr_def)
    show ?thesis
    proof (cases "loop_frames args \<le> frames")
      case enough: True
      obtain m where m: "fix_missing_locations frames (copy_location (new_call args) node) = Inr m"
        "visit frames m = Inr m" "getattr m ''args'' = Inr args"
        using new_node_enough [OF la ca enough] by blast
      have "share_args node m = node"
        using m(3) args by (cases node) (simp add: share_args_def with_field_def set_field_same)
      then show ?thesis
        using assms(3) b True ga m(1,2) enough
        by (simp add: refactor_step_def frames_suffice_def put_get)
    next
      case short: False
      show ?thesis
        using assms(3) b True ga short new_node_short [OF ca short, where node = node and h = "\<lambda>m. put tree p (share_args node m)"]
        by (simp add: refactor_step_def frames_suffice_def)
    qed
  qed
qed

lemma refactor_loop_list:
  assumes "located tree" and "conforms tree"
  shows "refactor_loop frames ps tree
           = (if \<forall>p \<in> set ps. \<forall>n. get tree p = Some n \<longrightarrow> frames_suffice frames n
              then Inr tree else Inl recursion_error)"
proof (induction ps)
  case Nil
  show ?case by simp
next
  case (Cons p ps)
  show ?case
  proof (cases "get tree p")
    case None
    then have "refactor_step frames tree p = Inr tree" by (simp add: refactor_step_def)
    with None Cons show ?thesis by simp
  next
    case (Some node)
    from refactor_step_result [OF assms Some]
    have "refactor_step frames tree p
           = (if frames_suffice frames node then Inr tree else Inl recursion_error)" .
    with Some Cons show ?thesis by simp
  qed
qed

lemma positions_all:
  "(\<forall>p \<in> set (walk_positions tree). \<forall>n. get tree p = Some n \<longrightarrow> Q n)
     = (\<forall>n \<in> set (walk tree). Q n)"
proof -
  have eq: "get tree ` set (walk_positions tree) = Some ` set (walk tree)"
    using walk_positions_nodes [of tree] by (metis set_map)
  show ?thesis
  proof
    assume l: "\<forall>p \<in> set (walk_positions tree). \<forall>n. get tree p = Some n \<longrightarrow> Q n"
    show "\<forall>n \<in> set (walk tree). Q n"
    proof
      fix n assume "n \<in> set (walk tree)"
      then have "Some n \<in> get tree ` set (walk_positions tree)" using eq by blast
      then obtain p where "p \<in> set (walk_positions tree)" "get tree p = Some n" by force
      with l show "Q n" by blast
    qed
  next
    assume r: "\<forall>n \<in> set (walk tree). Q n"
    show "\<forall>p \<in> set (walk_positions tree). \<forall>n. get tree p = Some n \<longrightarrow> Q n"
    proof (intro ballI allI impI)
      fix p n assume "p \<in> set (walk_positions tree)" "get tree p = Some n"
      then have "Some n \<in> Some ` set (walk tree)" using eq by force
      with r show "Q n" by blast
    qed
  qed
qed

lemma refactor_loop_result:
  assumes "located tree" and "conforms tree"
  shows "refactor_loop frames (walk_positions tree) tree
           = (if within_limit frames tree then Inr tree else Inl recursion_error)"
  using refactor_loop_list [OF assms, of frames "walk_positions tree"]
  by (simp only: positions_all within_limit_def list_all_iff)

lemma refactor_loop_no_print:
  "\<forall>n \<in> set (walk tree). is_print_call n = Inr False \<Longrightarrow> refactor_loop frames ps tree = Inr tree"
proof (induction ps)
  case Nil
  show ?case by simp
next
  case (Cons p ps)
  have "refactor_step frames tree p = Inr tree"
  proof (cases "get tree p")
    case None
    then show ?thesis by (simp add: refactor_step_def)
  next
    case (Some n)
    then have "n \<in> set (walk tree)" using get_in_preorder set_walk_preorder by blast
    with Cons.prems have "is_print_call n = Inr False" by blast
    with Some show ?thesis by (simp add: refactor_step_def)
  qed
  with Cons show ?case by simp
qed

section \<open>Facts on the example trees\<close>

lemma print_xy_tree_parsed: "located print_xy_tree" "conforms print_xy_tree"
  by (simp_all add: print_xy_tree_def print_xy_call_def tree_defs)

lemma logging_xy_tree_parsed: "located logging_xy_tree" "conforms logging_xy_tree"
  by (simp_all add: logging_xy_tree_def logging_xy_call_def tree_defs)

lemma print_xy_within_limit: "within_limit frames print_xy_tree = (9 \<le> frames)"
  by (simp add: within_limit_def frames_suffice_def print_xy_tree_def print_xy_call_def tree_defs
      walk_def iter_child_nodes_def is_print_call_def getattr_def loop_frames_def new_call_def
      maximum_def own_frames_def)

lemma logging_xy_within_limit: "within_limit frames logging_xy_tree"
  by (simp add: within_limit_def frames_suffice_def logging_xy_tree_def logging_xy_call_def
      tree_defs walk_def iter_child_nodes_def is_print_call_def getattr_def)

lemma sum_chain_parsed: "located (sum_chain k) \<and> conforms (sum_chain k)"
  by (induction k) (simp_all add: tree_defs)

lemma sum_chain_frames: "visit_frames (sum_chain k) = 2 * k + 5"
  by (induction k) (simp_all add: tree_defs maximum_def own_frames_def)

lemma deep_tree_parsed: "located deep_tree" "conforms deep_tree"
  using sum_chain_parsed [of 499] by (simp_all add: deep_tree_def deep_call_def tree_defs)

lemma deep_call_short: "frames < 1005 \<Longrightarrow> \<not> frames_suffice frames deep_call"
  by (simp add: frames_suffice_def deep_call_def tree_defs is_print_call_def getattr_def
      loop_frames_def new_call_def maximum_def own_frames_def sum_chain_frames)

lemma deep_tree_beyond_limit: "frames < 1005 \<Longrightarrow> \<not> within_limit frames deep_tree"
proof -
  assume fr: "frames < 1005"
  have "get deep_tree [Item 0 0, Field 0] = Some deep_call"
    by (simp add: deep_tree_def tree_defs)
  then have "deep_call \<in> set (walk deep_tree)"
    using get_in_preorder set_walk_preorder by blast
  with deep_call_short [OF fr] show ?thesis by (auto simp: within_limit_def list_all_iff)
qed

lemma hex_tree_parsed: "located hex_tree" "conforms hex_tree"
  by (simp_all add: hex_tree_def tree_defs)

lemma hex_tree_no_print: "\<forall>n \<in> set (walk hex_tree). is_print_call n = Inr False"
  by (simp add: hex_tree_def tree_defs walk_def iter_child_nodes_def is_print_call_def)

lemma logging_xy_tree_no_print: "\<forall>n \<in> set (walk logging_xy_tree). is_print_call n = Inr False"
  by (simp add: logging_xy_tree_def logging_xy_call_def tree_defs walk_def
      iter_child_nodes_def is_print_call_def getattr_def)

lemma deep_source_head: "deep_source = ''print(a+'' @ concat (replicate 498 ''a+'') @ ''a)''"
proof -
  have "replicate 499 ''a+'' = ''a+'' # replicate 498 ''a+''"
    by (simp add: numeral_eq_Suc)
  then show ?thesis by (simp add: deep_source_def)
qed

lemma example_parse_sources:
  "example_parse print_xy_source = Inr print_xy_tree"
  "example_parse logging_xy_source = Inr logging_xy_tree"
  "example_parse deep_source = Inr deep_tree"
  "example_parse hex_source = Inr hex_tree"
  by (simp_all add: example_parse_def print_xy_source_def logging_xy_source_def deep_source_head
      hex_source_def)


lemma example_unparse_trees:
  "example_unparse print_xy_tree = Inr print_xy_source"
  "example_unparse logging_xy_tree = Inr logging_xy_source"
  "example_unparse hex_tree = Inl digits_message"
  "example_unparse deep_tree = Inl unparse_recursion_message"
  by (simp_all add: example_unparse_def print_xy_tree_def print_xy_call_def logging_xy_tree_def
      logging_xy_call_def hex_tree_def deep_tree_def deep_call_def tree_defs)

section \<open>The claims\<close>

subsection \<open>Analyzer\<close>



text \<open>
  Claim C3. For source with function definitions \<open>f1..fn\<close> with empty bodies,
  \<open>analyze_code\<close> is to return one line \<open>Empty function found: <name>\<close> for each. Python
  has no function definition without a statement in its block: the emptiest function a source
  text can hold is one whose body is \<open>pass\<close>. On that source the code reports nothing.
\<close>

theorem analyze_code_pass_only_function:
  "analyze_code (\<lambda>code. Inr def_f_pass_tree) py_str def_f_pass_source = ''No issues found''"
  by (simp add: analyze_code_def def_f_pass_tree_def tree_defs walk_def iter_child_nodes_def
      empty_function_def getattr_def)

text \<open>
  Claim C4. For every syntactically invalid source (the parser raises), \<open>analyze_code\<close>
  returns the text \<open>Analysis error: \<close> followed by the message, so a string with the prefix
  \<open>Analysis error:\<close>; the exception ends in the handler.
\<close>

theorem analyze_code_syntax_error:
  assumes "parse code = Inl ex"
  shows "analyze_code parse py_str code = ''Analysis error: '' @ ex
         \<and> prefix ''Analysis error:'' (analyze_code parse py_str code)"
  using assms by (simp add: analyze_code_def)

text \<open>C4 at the source \<open>def f(:\<close>.\<close>

theorem analyze_code_syntax_error_witness:
  "analyze_code (\<lambda>code. Inl broken_message) plain_str broken_source
     = ''Analysis error: invalid syntax (<unknown>, line 1)''
   \<and> prefix ''Analysis error:''
        (analyze_code (\<lambda>code. Inl broken_message) plain_str broken_source)"
  using analyze_code_syntax_error
    [of "\<lambda>code. Inl broken_message" broken_source broken_message plain_str]
  by (simp add: broken_message_def)

text \<open>
  Claim C8, as stated: \<open>analyze_code\<close> visits the nodes in document order (pre-order). It
  does not: \<open>ast.walk\<close> takes the nodes from a queue, so on the tree of \<open>print(x, y)\<close> the
  three names come before their \<open>Load\<close> contexts, while in document order each name is
  followed by its own.
\<close>

theorem walk_not_preorder: "walk print_xy_tree \<noteq> preorder print_xy_tree"
proof -
  have "map kind (walk print_xy_tree)
          = [''Module'', ''Expr'', ''Call'', ''Name'', ''Name'', ''Name'', ''Load'', ''Load'', ''Load'']"
    by (simp add: print_xy_tree_def print_xy_call_def tree_defs walk_def iter_child_nodes_def)
  moreover have "map kind (preorder print_xy_tree)
          = [''Module'', ''Expr'', ''Call'', ''Name'', ''Load'', ''Name'', ''Load'', ''Name'', ''Load'']"
    by (simp add: print_xy_tree_def print_xy_call_def tree_defs preorder.simps iter_child_nodes_def)
  ultimately show ?thesis by auto
qed

text \<open>
  Claim C8, amended. The loop of \<open>analyze_code\<close> visits the nodes in breadth-first order
  (by depth, each depth from left to right); it visits every node exactly once (the nodes visited
  are those of the document-order traversal, each as often); and the findings are appended in
  the order of the visits.
\<close>

theorem walk_level_order_findings:
  "walk tree = level_order tree
   \<and> mset (walk tree) = mset (preorder tree)
   \<and> (analyze_loop py_str (walk tree) [] = Inr issues
        \<longrightarrow> issues = concat (map (emitted py_str) (walk tree)))"
proof -
  have "mset (walk tree) = mset (preorder tree)"
    using mset_walk_todo [of "[tree]"] by (simp add: walk_def)
  moreover have "analyze_loop py_str (walk tree) [] = Inr issues
                   \<longrightarrow> issues = concat (map (emitted py_str) (walk tree))"
    using analyze_loop_emitted [of py_str "walk tree" "[]" issues] by simp
  ultimately show ?thesis using walk_level_order by blast
qed

text \<open>C8 amended, at a tree with two emptied functions: \<open>b\<close>, at depth 1, is reported
  before \<open>a\<close>, at depth 2, which stands first in the document.\<close>

theorem walk_level_order_findings_witness:
  "analyze_loop plain_str (walk emptied_tree) []
     = Inr [''Empty function found: b'', ''Empty function found: a'']
   \<and> walk emptied_tree = level_order emptied_tree
   \<and> mset (walk emptied_tree) = mset (preorder emptied_tree)
   \<and> [''Empty function found: b'', ''Empty function found: a'']
       = concat (map (emitted plain_str) (walk emptied_tree))"
proof -
  have a: "analyze_loop plain_str (walk emptied_tree) []
             = Inr [''Empty function found: b'', ''Empty function found: a'']"
    by (simp add: emptied_tree_def tree_defs walk_def iter_child_nodes_def empty_function_def
        getattr_def finding_def)
  show ?thesis
    using a walk_level_order_findings [of emptied_tree plain_str
        "[''Empty function found: b'', ''Empty function found: a'']"]
    by blast
qed



subsection \<open>RefactorEngine\<close>

text \<open>
  Claim C1. For source with one call \<open>print(x, y)\<close>, \<open>refactor_code\<close> is to return text
  in which the call reads \<open>logging.info(x, y)\<close>. The code builds the new call and drops it:
  on \<open>print(x, y)\<close> the loop leaves the tree as parsed, and the code generator is given the
  tree that still calls \<open>print\<close>. (With fewer than the 9 frames that the calls on the new
  node take, the loop ends in RecursionError instead.)
\<close>

theorem refactor_code_print_unchanged:
  "refactor_loop frames (walk_positions print_xy_tree) print_xy_tree
     = (if 9 \<le> frames then Inr print_xy_tree else Inl recursion_error)
   \<and> refactor_code frames (\<lambda>code. Inr print_xy_tree) unparse print_xy_source
       = (if 9 \<le> frames
          then (case unparse print_xy_tree of
                  Inl ex \<Rightarrow> ''Refactoring error: '' @ ex
                | Inr text \<Rightarrow> text)
          else ''Refactoring error: maximum recursion depth exceeded'')"
proof -
  have "refactor_loop frames (walk_positions print_xy_tree) print_xy_tree
          = (if 9 \<le> frames then Inr print_xy_tree else Inl recursion_error)"
    using refactor_loop_result [OF print_xy_tree_parsed, of frames]
    by (simp only: print_xy_within_limit)
  then show ?thesis by (simp add: refactor_code_def recursion_error_def)
qed

text \<open>
  Claim C5. When the transformation or the regeneration fails (and when the parser does),
  \<open>refactor_code\<close> returns the one string \<open>Refactoring error: \<close> followed by the message
  of the failure.
\<close>

theorem refactor_code_failure:
  assumes "parse code = Inl ex
           \<or> (\<exists>tree. parse code = Inr tree
                 \<and> refactor_loop frames (walk_positions tree) tree = Inl ex)
           \<or> (\<exists>tree tree'. parse code = Inr tree
                 \<and> refactor_loop frames (walk_positions tree) tree = Inr tree'
                 \<and> unparse tree' = Inl ex)"
  shows "refactor_code frames parse unparse code = ''Refactoring error: '' @ ex"
  using assms by (auto simp: refactor_code_def)

text \<open>C5 where the code generator fails: the source \<open>x = 0xff...f\<close>.\<close>

theorem refactor_code_failure_witness:
  "refactor_code 1000 example_parse example_unparse hex_source
     = ''Refactoring error: '' @ digits_message"
proof -
  have "refactor_loop 1000 (walk_positions hex_tree) hex_tree = Inr hex_tree"
    using hex_tree_no_print by (rule refactor_loop_no_print)
  then have "\<exists>tree tree'. example_parse hex_source = Inr tree
               \<and> refactor_loop 1000 (walk_positions tree) tree = Inr tree'
               \<and> example_unparse tree' = Inl digits_message"
    by (simp add: example_parse_sources example_unparse_trees)
  then show ?thesis
    using refactor_code_failure [of example_parse hex_source digits_message 1000 example_unparse]
    by blast
qed




text \<open>
  Claim C7. A second run of \<open>refactor_code\<close>, on the output of the first, does not rewrite
  a call whose callee is \<open>logging.info\<close>: the test of the loop does not select it, the turn
  of the loop at it leaves the tree as it is, and when the loop completes the call is where it
  was, unchanged. The loop completes when the stack suffices at the calls of \<open>print\<close> in the
  tree (\<open>within_limit\<close>); otherwise it ends in RecursionError and nothing is rewritten.
\<close>

theorem second_run_keeps_logging_calls:
  assumes "parse (refactor_code frames parse unparse code) = Inr tree2"
    and "located tree2" and "conforms tree2"
    and "get tree2 p = Some n" and "logging_info_call n"
  shows "is_print_call n = Inr False
         \<and> refactor_step frames tree2 p = Inr tree2
         \<and> (\<forall>tree3. refactor_loop frames (walk_positions tree2) tree2 = Inr tree3
               \<longrightarrow> get tree3 p = Some n)
         \<and> (within_limit frames tree2
               \<longrightarrow> (\<exists>tree3. refactor_loop frames (walk_positions tree2) tree2 = Inr tree3
                           \<and> get tree3 p = Some n))"
proof -
  have np: "is_print_call n = Inr False" using assms(5) by (rule logging_info_call_not_print)
  with assms(4) have step: "refactor_step frames tree2 p = Inr tree2"
    by (simp add: refactor_step_def)
  have "refactor_loop frames (walk_positions tree2) tree2
          = (if within_limit frames tree2 then Inr tree2 else Inl recursion_error)"
    using assms(2,3) by (rule refactor_loop_result)
  with np step assms(4) show ?thesis by simp
qed

text \<open>C7 at the source \<open>logging.info(x, y)\<close>, which the first run returns as it is.\<close>

theorem second_run_keeps_logging_calls_witness:
  "example_parse (refactor_code 1000 example_parse example_unparse logging_xy_source)
     = Inr logging_xy_tree
   \<and> located logging_xy_tree \<and> conforms logging_xy_tree
   \<and> get logging_xy_tree [Item 0 0, Field 0] = Some logging_xy_call
   \<and> logging_info_call logging_xy_call
   \<and> within_limit 1000 logging_xy_tree
   \<and> is_print_call logging_xy_call = Inr False
   \<and> refactor_step 1000 logging_xy_tree [Item 0 0, Field 0] = Inr logging_xy_tree
   \<and> (\<exists>tree3. refactor_loop 1000 (walk_positions logging_xy_tree) logging_xy_tree = Inr tree3
               \<and> get tree3 [Item 0 0, Field 0] = Some logging_xy_call)"
proof -
  have g: "get logging_xy_tree [Item 0 0, Field 0] = Some logging_xy_call"
    by (simp add: logging_xy_tree_def tree_defs)
  have i: "logging_info_call logging_xy_call"
    by (simp add: logging_info_call_def logging_xy_call_def tree_defs)
  have w: "within_limit 1000 logging_xy_tree" by (rule logging_xy_within_limit)
  have p: "example_parse (refactor_code 1000 example_parse example_unparse logging_xy_source)
           = Inr logging_xy_tree"
  proof -
    have "refactor_loop 1000 (walk_positions logging_xy_tree) logging_xy_tree
            = Inr logging_xy_tree"
      using logging_xy_tree_no_print by (rule refactor_loop_no_print)
    then have "refactor_code 1000 example_parse example_unparse logging_xy_source
                 = logging_xy_source"
      by (simp add: refactor_code_def example_parse_sources example_unparse_trees)
    then show ?thesis by (simp add: example_parse_sources)
  qed
  from second_run_keeps_logging_calls
    [of example_parse 1000 example_unparse logging_xy_source logging_xy_tree
        "[Item 0 0, Field 0]" logging_xy_call, OF p logging_xy_tree_parsed g i]
  have "is_print_call logging_xy_call = Inr False
        \<and> refactor_step 1000 logging_xy_tree [Item 0 0, Field 0] = Inr logging_xy_tree
        \<and> (\<exists>tree3. refactor_loop 1000 (walk_positions logging_xy_tree) logging_xy_tree = Inr tree3
                    \<and> get tree3 [Item 0 0, Field 0] = Some logging_xy_call)"
    using w by blast
  with p logging_xy_tree_parsed g i w show ?thesis by blast
qed

text \<open>
  Claim C10, as stated: for every syntactically valid source, \<open>refactor_code\<close> returns what
  the code generator makes of the tree as parsed. It does not where the calls of the loop body
  run out of stack: on \<open>print(a+a+...+a)\<close> with 500 names the call of
  \<open>NodeTransformer().visit\<close> on the new node raises RecursionError, and \<open>refactor_code\<close>
  returns the message of that exception, while \<open>ast.unparse\<close> on the parsed tree raises with
  another message.
\<close>

theorem refactor_code_deep_arguments:
  "example_parse deep_source = Inr deep_tree
   \<and> refactor_code 1000 example_parse example_unparse deep_source
       = ''Refactoring error: maximum recursion depth exceeded''
   \<and> (case example_unparse deep_tree of
         Inl ex \<Rightarrow> ''Refactoring error: '' @ ex
       | Inr text \<Rightarrow> text)
       = ''Refactoring error: maximum recursion depth exceeded while calling a Python object''
   \<and> refactor_code 1000 example_parse example_unparse deep_source
       \<noteq> (case example_unparse deep_tree of
            Inl ex \<Rightarrow> ''Refactoring error: '' @ ex
          | Inr text \<Rightarrow> text)"
proof -
  have "\<not> within_limit 1000 deep_tree" by (rule deep_tree_beyond_limit) simp
  then have "refactor_loop 1000 (walk_positions deep_tree) deep_tree = Inl recursion_error"
    using refactor_loop_result [OF deep_tree_parsed, of 1000] by simp
  then have "refactor_code 1000 example_parse example_unparse deep_source
               = ''Refactoring error: maximum recursion depth exceeded''"
    by (simp add: refactor_code_def example_parse_sources recursion_error_def)
  then show ?thesis
    by (simp add: example_parse_sources example_unparse_trees unparse_recursion_message_def)
qed

text \<open>
  Claim C10, amended. For every syntactically valid source, \<open>refactor_code\<close> returns what
  the code generator makes of the tree as parsed, whether or not a call of \<open>print\<close> was
  matched, provided the stack suffices for the calls of the loop body at every matched call
  (\<open>within_limit\<close>): the new node is never put into the tree. Where the stack does not
  suffice, it returns \<open>Refactoring error: maximum recursion depth exceeded\<close>. The tree is
  one the parser builds (\<open>located\<close>, \<open>conforms\<close>).
\<close>

theorem refactor_code_regenerates_parsed_tree:
  assumes "parse code = Inr tree" and "located tree" and "conforms tree"
  shows "refactor_code frames parse unparse code
           = (if within_limit frames tree
              then (case unparse tree of
                      Inl ex \<Rightarrow> ''Refactoring error: '' @ ex
                    | Inr text \<Rightarrow> text)
              else ''Refactoring error: maximum recursion depth exceeded'')"
  using assms(1) refactor_loop_result [OF assms(2,3), of frames]
  by (simp add: refactor_code_def recursion_error_def)

text \<open>C10 amended, at the source \<open>print(x, y)\<close>, where the loop does match a call.\<close>

theorem refactor_code_regenerates_parsed_tree_witness:
  "example_parse print_xy_source = Inr print_xy_tree
   \<and> located print_xy_tree \<and> conforms print_xy_tree
   \<and> get print_xy_tree [Item 0 0, Field 0] = Some print_xy_call
   \<and> is_print_call print_xy_call = Inr True
   \<and> within_limit 1000 print_xy_tree
   \<and> refactor_code 1000 example_parse example_unparse print_xy_source = ''print(x, y)''"
proof -
  have m: "is_print_call print_xy_call = Inr True"
    by (simp add: is_print_call_def getattr_def print_xy_call_def tree_defs)
  have g: "get print_xy_tree [Item 0 0, Field 0] = Some print_xy_call"
    by (simp add: print_xy_tree_def tree_defs)
  have p: "example_parse print_xy_source = Inr print_xy_tree" by (rule example_parse_sources)
  have w: "within_limit 1000 print_xy_tree" by (simp add: print_xy_within_limit)
  have "refactor_code 1000 example_parse example_unparse print_xy_source
          = (if within_limit 1000 print_xy_tree
             then (case example_unparse print_xy_tree of
                     Inl ex \<Rightarrow> ''Refactoring error: '' @ ex
                   | Inr text \<Rightarrow> text)
             else ''Refactoring error: maximum recursion depth exceeded'')"
    by (rule refactor_code_regenerates_parsed_tree
          [of example_parse print_xy_source print_xy_tree 1000 example_unparse,
           OF p print_xy_tree_parsed])
  with w have "refactor_code 1000 example_parse example_unparse print_xy_source = ''print(x, y)''"
    by (simp add: example_unparse_trees print_xy_source_def)
  with p print_xy_tree_parsed m g w show ?thesis by blast
qed

end
